theory Spec2Isabelle
  imports Complex_Main
begin

section \<open>Data model\<close>

text \<open>
  The types of \<^verbatim>\<open>src/index.ts\<close>. A JavaScript string is modelled as a
  \<^typ>\<open>string\<close>, one \<^typ>\<open>char\<close> per code unit (the code units 0 to 255).
  \<^verbatim>\<open>
  type LocationType = "page" | "block";
  type Location = { type: LocationType; uid: string };
  type BreadcrumbItem = { uid: string; type: LocationType; title: string };
  \<close>
  Both object types have the fields \<^verbatim>\<open>uid\<close> and \<^verbatim>\<open>type\<close>; the fields of
  \<^verbatim>\<open>Location\<close> carry the prefix \<open>loc_\<close> here to keep the two records apart.
\<close>

datatype LocationType = page | block

record Location =
  loc_type :: LocationType
  loc_uid :: string

record BreadcrumbItem =
  uid :: string
  type :: LocationType
  title :: string

section \<open>History store\<close>

text \<open>
  \<^verbatim>\<open>Array.prototype.slice(0, end)\<close> for an integral \<^verbatim>\<open>end\<close>: a negative
  \<^verbatim>\<open>end\<close> counts from the end of the array and is clamped at 0, a non-negative one is
  clamped at the length.
\<close>

definition slice0 :: "'a list \<Rightarrow> int \<Rightarrow> 'a list" where
  "slice0 xs e = (if e < 0 then take (nat (int (length xs) + e)) xs else take (nat e) xs)"

text \<open>
  \<^verbatim>\<open>
  const updateBreadcrumbHistory = ({ item, maxBreadcrumbs }) => {
    breadcrumbHistory = breadcrumbHistory.filter((historyItem) => historyItem.uid !== item.uid);
    breadcrumbHistory.unshift(item);
    const maxEntries = maxBreadcrumbs + 1;
    if (breadcrumbHistory.length > maxEntries) {
      breadcrumbHistory = breadcrumbHistory.slice(0, maxEntries);
    }
  };
  \<close>
  The module variable \<^verbatim>\<open>breadcrumbHistory\<close> is passed in and returned.
  \<^verbatim>\<open>maxBreadcrumbs\<close> is an integral JavaScript number, an \<^typ>\<open>int\<close> here.
\<close>

definition updateBreadcrumbHistory :: "BreadcrumbItem \<Rightarrow> int \<Rightarrow> BreadcrumbItem list \<Rightarrow> BreadcrumbItem list" where
  "updateBreadcrumbHistory item maxBreadcrumbs breadcrumbHistory =
     (let filtered = filter (\<lambda>historyItem. uid historyItem \<noteq> uid item) breadcrumbHistory;
          unshifted = item # filtered;
          maxEntries = maxBreadcrumbs + 1
      in if int (length unshifted) > maxEntries then slice0 unshifted maxEntries else unshifted)"

text \<open>A sequence of calls, each with its own item and the same \<open>maxBreadcrumbs\<close>, oldest call first.\<close>

fun upserts :: "BreadcrumbItem list \<Rightarrow> int \<Rightarrow> BreadcrumbItem list \<Rightarrow> BreadcrumbItem list" where
  "upserts [] cap h = h"
| "upserts (e # es) cap h = upserts es cap (updateBreadcrumbHistory e cap h)"

text \<open>
  The contract of \<open>upsert\<close> in the words of the specification: remove every entry that
  shares the id of the new one, prepend the new one, keep the first \<open>cap + 1\<close> elements.
\<close>

definition upsert_spec :: "BreadcrumbItem \<Rightarrow> nat \<Rightarrow> BreadcrumbItem list \<Rightarrow> BreadcrumbItem list" where
  "upsert_spec entry cap h = take (cap + 1) (entry # filter (\<lambda>x. uid x \<noteq> uid entry) h)"

section \<open>Regular expressions\<close>

text \<open>
  The regular expressions of the source are all sequences of literal characters and
  quantified character classes, with at most one capture group, around one quantified class:
  \<^verbatim>\<open>/\*\*([^*]+)\*\*/\<close>, \<^verbatim>\<open>/{{.*?}}/\<close>, \<^verbatim>\<open>/\/page\/[^?]+\?.*block=([a-zA-Z0-9_-]+)/\<close>.
  An \<open>item\<close> is a literal or a class with its quantifier (greedy or lazy), its least number
  of repetitions and whether it is group 1.
\<close>

datatype quant = Greedy | Lazy

datatype item = Lit char | Rep quant nat "char \<Rightarrow> bool" bool

text \<open>
  A backtracking matcher tries the numbers of repetitions of a class in the order of the
  quantifier, the most first for a greedy one and the fewest first for a lazy one, and
  keeps the first that lets the rest of the pattern match.
\<close>

fun first_some :: "'a option list \<Rightarrow> 'a option" where
  "first_some [] = None"
| "first_some (None # xs) = first_some xs"
| "first_some (Some x # xs) = Some x"

fun counts :: "quant \<Rightarrow> nat \<Rightarrow> nat \<Rightarrow> nat list" where
  "counts Greedy m k = rev [m..<Suc k]"
| "counts Lazy m k = [m..<Suc k]"

text \<open>
  \<open>matchAt re s\<close> matches \<open>re\<close> at the start of \<open>s\<close>: the text of group 1 (if the
  pattern has one) and the length of the match.
\<close>

fun matchAt :: "item list \<Rightarrow> string \<Rightarrow> (string option \<times> nat) option" where
  "matchAt [] s = Some (None, 0)"
| "matchAt (Lit c # r) [] = None"
| "matchAt (Lit c # r) (x # xs) =
     (if x = c then map_option (\<lambda>(g, l). (g, Suc l)) (matchAt r xs) else None)"
| "matchAt (Rep q m cls cap # r) s =
     first_some (map (\<lambda>n. map_option (\<lambda>(g, l). (if cap then Some (take n s) else g, n + l))
                                      (matchAt r (drop n s)))
                     (counts q m (length (takeWhile cls s))))"

text \<open>
  \<^verbatim>\<open>String.prototype.match\<close> with a pattern without the \<^verbatim>\<open>g\<close> flag: the leftmost
  match, as its index, group 1 and its length.
\<close>

fun search :: "item list \<Rightarrow> string \<Rightarrow> (nat \<times> string option \<times> nat) option" where
  "search re [] = map_option (\<lambda>(g, l). (0, g, l)) (matchAt re [])"
| "search re (c # cs) =
     (case matchAt re (c # cs) of
        Some (g, l) \<Rightarrow> Some (0, g, l)
      | None \<Rightarrow> map_option (\<lambda>(i, g, l). (Suc i, g, l)) (search re cs))"

text \<open>
  A replacement string is a sequence of literal text and \<^verbatim>\<open>$1\<close>; a group that did not
  take part in the match expands to the empty string.
\<close>

datatype piece = Txt string | Group1

fun expand :: "piece list \<Rightarrow> string option \<Rightarrow> string" where
  "expand [] g = []"
| "expand (Txt t # ps) g = t @ expand ps g"
| "expand (Group1 # ps) g = (case g of None \<Rightarrow> [] | Some w \<Rightarrow> w) @ expand ps g"

text \<open>
  \<^verbatim>\<open>String.prototype.replace\<close> with a pattern with the \<^verbatim>\<open>g\<close> flag: every match from
  left to right, the next search starting where the last match ended; after an empty match
  the next character is copied and the search goes on behind it.
\<close>

function replaceAll :: "item list \<Rightarrow> piece list \<Rightarrow> string \<Rightarrow> string" where
  "replaceAll re rep [] = (case matchAt re [] of None \<Rightarrow> [] | Some (g, l) \<Rightarrow> expand rep g)"
| "replaceAll re rep (c # cs) =
     (case matchAt re (c # cs) of
        None \<Rightarrow> c # replaceAll re rep cs
      | Some (g, l) \<Rightarrow>
          if l = 0 then expand rep g @ c # replaceAll re rep cs
          else expand rep g @ replaceAll re rep (drop l (c # cs)))"
  by pat_completeness auto
termination
  by (relation "measure (\<lambda>(re, rep, s). length s)") auto

definition lits :: "string \<Rightarrow> item list" where
  "lits s = map Lit s"

text \<open>
  The line terminators (which \<^verbatim>\<open>.\<close> does not match) and the white space (which
  \<^verbatim>\<open>trim\<close> removes) among the code units 0 to 255.
\<close>

definition isLineTerminator :: "char \<Rightarrow> bool" where
  "isLineTerminator c = (c = CHR 0x0A \<or> c = CHR 0x0D)"

definition isWhiteSpace :: "char \<Rightarrow> bool" where
  "isWhiteSpace c = (c \<in> {CHR 0x09, CHR 0x0A, CHR 0x0B, CHR 0x0C, CHR 0x0D, CHR 0x20, CHR 0xA0})"

definition trim :: "string \<Rightarrow> string" where
  "trim s = rev (dropWhile isWhiteSpace (rev (dropWhile isWhiteSpace s)))"

definition notc :: "char \<Rightarrow> char \<Rightarrow> bool" where
  "notc c x = (x \<noteq> c)"

definition dot :: "char \<Rightarrow> bool" where
  "dot x = (\<not> isLineTerminator x)"

definition idChar :: "char \<Rightarrow> bool" where
  "idChar x = (x \<in> set ''abcdefghijklmnopqrstuvwxyzABCDEFGHIJKLMNOPQRSTUVWXYZ0123456789_-'')"

section \<open>Location resolver\<close>

text \<open>
  \<^verbatim>\<open>
  const getLocationFromHash = (): Location | null => {
    const hash = window.location.hash;
    const blockMatch = hash.match(/\/page\/[^?]+\?.*block=([a-zA-Z0-9_-]+)/);
    if (blockMatch?.[1]) { return { type: "block", uid: blockMatch[1] }; }
    const pageMatch = hash.match(/\/page\/([a-zA-Z0-9_-]+)/);
    if (pageMatch?.[1]) { return { type: "page", uid: pageMatch[1] }; }
    return null;
  };
  \<close>
  \<^verbatim>\<open>window.location.hash\<close> is the argument \<open>hash\<close>.
\<close>

definition blockPattern :: "item list" where
  "blockPattern = lits ''/page/'' @ [Rep Greedy 1 (notc CHR ''?'') False] @ lits ''?''
                  @ [Rep Greedy 0 dot False] @ lits ''block='' @ [Rep Greedy 1 idChar True]"

definition pagePattern :: "item list" where
  "pagePattern = lits ''/page/'' @ [Rep Greedy 1 idChar True]"

text \<open>\<^verbatim>\<open>m?.[1]\<close> as a condition: the match exists and its group 1 is a non-empty string.\<close>

fun group1 :: "(nat \<times> string option \<times> nat) option \<Rightarrow> string option" where
  "group1 None = None"
| "group1 (Some (i, None, l)) = None"
| "group1 (Some (i, Some g, l)) = (if g = [] then None else Some g)"

definition getLocationFromHash :: "string \<Rightarrow> Location option" where
  "getLocationFromHash hash =
     (case group1 (search blockPattern hash) of
        Some b \<Rightarrow> Some \<lparr>loc_type = block, loc_uid = b\<rparr>
      | None \<Rightarrow>
          (case group1 (search pagePattern hash) of
             Some p \<Rightarrow> Some \<lparr>loc_type = page, loc_uid = p\<rparr>
           | None \<Rightarrow> None))"

section \<open>Content labeler\<close>

text \<open>
  \<^verbatim>\<open>
  const stripMarkdown = ({ text }) =>
    text
      .replace(/\*\*([^*]+)\*\*/g, "$1")
      .replace(/__([^_]+)__/g, "$1")
      .replace(/\*([^*]+)\*/g, "$1")
      .replace(/_([^_]+)_/g, "$1")
      .replace(/~~([^~]+)~~/g, "$1")
      .replace(/\[\[([^\]]+)\]\]/g, "$1")
      .replace(/\(\(([^)]+)\)\)/g, "->")
      .replace(/```[^`]*```/g, "[code]")
      .replace(/`([^`]+)`/g, "$1")
      .replace(/!\[.*?\]\(.*?\)/g, "[img]")
      .replace(/\[([^\]]+)\]\([^)]+\)/g, "$1")
      .replace(/{{.*?}}/g, "")
      .replace(/#\[\[([^\]]+)\]\]/g, "#$1")
      .trim();
  \<close>
  The thirteen replacements, in the order of the calls.
\<close>

definition markdownRules :: "(item list \<times> piece list) list" where
  "markdownRules =
    [(lits ''**'' @ [Rep Greedy 1 (notc CHR ''*'') True] @ lits ''**'', [Group1]),
     (lits ''__'' @ [Rep Greedy 1 (notc CHR ''_'') True] @ lits ''__'', [Group1]),
     (lits ''*'' @ [Rep Greedy 1 (notc CHR ''*'') True] @ lits ''*'', [Group1]),
     (lits ''_'' @ [Rep Greedy 1 (notc CHR ''_'') True] @ lits ''_'', [Group1]),
     (lits ''~~'' @ [Rep Greedy 1 (notc CHR ''~'') True] @ lits ''~~'', [Group1]),
     (lits ''[['' @ [Rep Greedy 1 (notc CHR '']'') True] @ lits '']]'', [Group1]),
     (lits ''(('' @ [Rep Greedy 1 (notc CHR '')'') True] @ lits ''))'', [Txt ''->'']),
     (lits ''```'' @ [Rep Greedy 0 (notc CHR ''`'') False] @ lits ''```'', [Txt ''[code]'']),
     (lits ''`'' @ [Rep Greedy 1 (notc CHR ''`'') True] @ lits ''`'', [Group1]),
     (lits ''!['' @ [Rep Lazy 0 dot False] @ lits '']('' @ [Rep Lazy 0 dot False] @ lits '')'',
        [Txt ''[img]'']),
     (lits ''['' @ [Rep Greedy 1 (notc CHR '']'') True] @ lits '']('' @ [Rep Greedy 1 (notc CHR '')'') False]
        @ lits '')'', [Group1]),
     (lits ''{{'' @ [Rep Lazy 0 dot False] @ lits ''}}'', []),
     (lits ''#[['' @ [Rep Greedy 1 (notc CHR '']'') True] @ lits '']]'', [Txt ''#'', Group1])]"

fun replaceEach :: "(item list \<times> piece list) list \<Rightarrow> string \<Rightarrow> string" where
  "replaceEach [] s = s"
| "replaceEach ((re, rep) # rules) s = replaceEach rules (replaceAll re rep s)"

definition stripMarkdown :: "string \<Rightarrow> string" where
  "stripMarkdown text = trim (replaceEach markdownRules text)"

text \<open>The characters that open the markup constructs of \<open>markdownRules\<close>.\<close>

definition markupChars :: "char set" where
  "markupChars = {CHR ''*'', CHR ''_'', CHR ''~'', CHR ''['', CHR ''('', CHR ''`'', CHR ''{''}"

text \<open>
  \<^verbatim>\<open>
  const truncateText = ({ text, maxLength }) => {
    const cleaned = stripMarkdown({ text });
    if (cleaned.length <= maxLength) return cleaned;
    return `${cleaned.slice(0, maxLength - 1)}...`;
  };
  \<close>
  \<^verbatim>\<open>maxLength\<close> is an integral number; the marker is three full stops.
\<close>

definition truncateText :: "string \<Rightarrow> int \<Rightarrow> string" where
  "truncateText text maxLength =
     (let cleaned = stripMarkdown text
      in if int (length cleaned) \<le> maxLength then cleaned
         else slice0 cleaned (maxLength - 1) @ ''...'')"

section \<open>Settings\<close>

text \<open>
  A JavaScript number is not a number, an infinity or a finite double. Every finite double
  is a rational, and the three operations below (\<^verbatim>\<open>Number.isFinite\<close>, \<^verbatim>\<open>> 0\<close>,
  \<^verbatim>\<open>Math.floor\<close>) are exact on doubles, so a finite number is a \<^typ>\<open>rat\<close> here.
\<close>

datatype number = NaN | Infinity | NegInfinity | Finite rat

fun isFinite :: "number \<Rightarrow> bool" where
  "isFinite (Finite r) = True"
| "isFinite _ = False"

fun positive :: "number \<Rightarrow> bool" where
  "positive (Finite r) = (r > 0)"
| "positive Infinity = True"
| "positive _ = False"

text \<open>
  \<^verbatim>\<open>
  const parsePositiveInteger = ({ value, fallback }) => {
    const parsed = Number(value);
    return Number.isFinite(parsed) && parsed > 0 ? Math.floor(parsed) : fallback;
  };
  \<close>
  The conversion \<^verbatim>\<open>Number(value)\<close> of the language is the parameter \<open>toNumber\<close>. The
  fallbacks of the source are the integers 8 and 25, and the floor of a finite double is an
  integer, so the result is an \<^typ>\<open>int\<close>.
\<close>

definition parsePositiveInteger :: "('v \<Rightarrow> number) \<Rightarrow> 'v \<Rightarrow> int \<Rightarrow> int" where
  "parsePositiveInteger toNumber v fallback =
     (let parsed = toNumber v
      in if isFinite parsed \<and> positive parsed
         then (case parsed of Finite r \<Rightarrow> \<lfloor>r\<rfloor> | _ \<Rightarrow> fallback)
         else fallback)"

record ExtensionSettings =
  maxBreadcrumbs :: int
  truncateLength :: int

definition DEFAULT_SETTINGS :: ExtensionSettings where
  "DEFAULT_SETTINGS = \<lparr>maxBreadcrumbs = 8, truncateLength = 25\<rparr>"

text \<open>
  \<^verbatim>\<open>
  const readSettings = ({ extensionAPI }) => ({
    maxBreadcrumbs: parsePositiveInteger({
      value: extensionAPI.settings.get("maxBreadcrumbs"), fallback: DEFAULT_SETTINGS.maxBreadcrumbs }),
    truncateLength: parsePositiveInteger({
      value: extensionAPI.settings.get("truncateLength"), fallback: DEFAULT_SETTINGS.truncateLength }),
  });
  \<close>
  \<open>get\<close> is \<^verbatim>\<open>extensionAPI.settings.get\<close>.
\<close>

definition readSettings :: "('v \<Rightarrow> number) \<Rightarrow> (string \<Rightarrow> 'v) \<Rightarrow> ExtensionSettings" where
  "readSettings toNumber get =
     \<lparr>maxBreadcrumbs = parsePositiveInteger toNumber (get ''maxBreadcrumbs'') (maxBreadcrumbs DEFAULT_SETTINGS),
      truncateLength = parsePositiveInteger toNumber (get ''truncateLength'') (truncateLength DEFAULT_SETTINGS)\<rparr>"

section \<open>Content resolver\<close>

text \<open>
  \<^verbatim>\<open>window.roamAlphaAPI.q\<close> is the parameter \<open>q\<close>: the source calls it with two queries,
  for the \<^verbatim>\<open>:node/title\<close> and for the \<^verbatim>\<open>:block/string\<close> of the entity with a given
  uid. Its result is an array of rows of strings, or nothing (\<open>None\<close>).
\<close>

datatype query = TitleQuery string | StringQuery string

type_synonym rows = "string list list option"

text \<open>
  \<^verbatim>\<open>
  const queryPageTitle = async ({ uid }) => {
    const pageResult = await window.roamAlphaAPI.q(...);
    return pageResult?.[0]?.[0] || null;
  };
  const queryBlockString = async ({ uid }) => {
    const blockResult = await window.roamAlphaAPI.q(...);
    if (!blockResult?.length) return null;
    return blockResult[0][0] || "(empty block)";
  };
  \<close>
\<close>

fun queryPageTitle :: "(query \<Rightarrow> rows) \<Rightarrow> string \<Rightarrow> string option" where
  "queryPageTitle q u =
     (case q (TitleQuery u) of
        None \<Rightarrow> None
      | Some [] \<Rightarrow> None
      | Some ([] # _) \<Rightarrow> None
      | Some ((t # _) # _) \<Rightarrow> (if t = [] then None else Some t))"

fun queryBlockString :: "(query \<Rightarrow> rows) \<Rightarrow> string \<Rightarrow> string option" where
  "queryBlockString q u =
     (case q (StringQuery u) of
        None \<Rightarrow> None
      | Some [] \<Rightarrow> None
      | Some ([] # _) \<Rightarrow> Some ''(empty block)''
      | Some ((t # _) # _) \<Rightarrow> Some (if t = [] then ''(empty block)'' else t))"

text \<open>
  \<^verbatim>\<open>
  const getBreadcrumbItemByUid = async ({ uid }) => {
    const pageTitle = await queryPageTitle({ uid });
    if (pageTitle) { return { uid, type: "page", title: pageTitle }; }
    const blockString = await queryBlockString({ uid });
    if (!blockString) return null;
    return { uid, type: "block", title: blockString };
  };
  \<close>
  The result comes with the calls of \<open>q\<close> that were made, in their order. The
  parameter \<^verbatim>\<open>uid\<close> is \<open>u\<close> here and in the two queries.
\<close>

definition getBreadcrumbItemByUid :: "(query \<Rightarrow> rows) \<Rightarrow> string \<Rightarrow> BreadcrumbItem option \<times> query list" where
  "getBreadcrumbItemByUid q u =
     (case queryPageTitle q u of
        Some pageTitle \<Rightarrow> (Some \<lparr>uid = u, type = page, title = pageTitle\<rparr>, [TitleQuery u])
      | None \<Rightarrow>
          (case queryBlockString q u of
             None \<Rightarrow> (None, [TitleQuery u, StringQuery u])
           | Some blockString \<Rightarrow>
               (if blockString = [] then None else Some \<lparr>uid = u, type = block, title = blockString\<rparr>,
                [TitleQuery u, StringQuery u])))"

section \<open>Render projector\<close>

text \<open>
  The children of the element \<^verbatim>\<open>.breadcrumbs-content\<close>: a text, a separator, or a
  breadcrumb with its class, text, tooltip and, when it has a click listener, the arguments of
  \<^verbatim>\<open>navigateTo\<close>.
\<close>

datatype node =
    TextNode string
  | SeparatorElement
  | BreadcrumbElement string string string "(string \<times> LocationType) option"

text \<open>
  The module variables \<^verbatim>\<open>breadcrumbHistory\<close> and \<^verbatim>\<open>currentLocation\<close>, and of the
  page the content container: \<open>None\<close> when \<^verbatim>\<open>getContentContainer()\<close> finds none (no top
  bar to mount the panel in).
\<close>

record state =
  breadcrumbHistory :: "BreadcrumbItem list"
  currentLocation :: "Location option"
  container :: "node list option"

definition createBreadcrumbElement :: "BreadcrumbItem \<Rightarrow> bool \<Rightarrow> int \<Rightarrow> node" where
  "createBreadcrumbElement item isCurrent truncLen =
     (let typeClass = (if type item = page then ''breadcrumb-page'' else ''breadcrumb-block'')
      in BreadcrumbElement
           (trim (''breadcrumb-item '' @ typeClass @ '' '' @ (if isCurrent then ''breadcrumb-current'' else [])))
           (truncateText (title item) truncLen)
           (stripMarkdown (title item))
           (if \<not> isCurrent then Some (uid item, type item) else None))"

text \<open>
  \<^verbatim>\<open>
  const renderBreadcrumbs = ({ truncateLength }) => {
    const content = getContentContainer();
    if (!content) return;
    content.innerHTML = "";
    if (!breadcrumbHistory.length) { content.textContent = "No history yet"; return; }
    const displayOrder = [...breadcrumbHistory].reverse();
    displayOrder.forEach((item, index) => {
      const isCurrent = index === displayOrder.length - 1;
      if (index > 0) { content.appendChild(createSeparatorElement()); }
      content.appendChild(createBreadcrumbElement({ item, isCurrent, truncateLength }));
    });
  };
  \<close>
\<close>

definition renderBreadcrumbs :: "int \<Rightarrow> state \<Rightarrow> state" where
  "renderBreadcrumbs truncLen st =
     (case container st of
        None \<Rightarrow> st
      | Some content \<Rightarrow>
          if breadcrumbHistory st = [] then st\<lparr>container := Some [TextNode ''No history yet'']\<rparr>
          else
            (let displayOrder = rev (breadcrumbHistory st)
             in st\<lparr>container := Some (concat (map
                  (\<lambda>(index, item).
                     (if index > 0 then [SeparatorElement] else [])
                     @ [createBreadcrumbElement item (index = length displayOrder - 1) truncLen])
                  (enumerate 0 displayOrder)))\<rparr>))"

section \<open>Navigation controller\<close>

text \<open>
  \<^verbatim>\<open>
  const handleNavigation = async ({ maxBreadcrumbs, truncateLength }) => {
    const location = getLocationFromHash();
    if (!location) return;
    if (currentLocation?.uid === location.uid) return;
    const breadcrumbItem = await getBreadcrumbItemByUid({ uid: location.uid });
    if (!breadcrumbItem) return;
    updateBreadcrumbHistory({ item: breadcrumbItem, maxBreadcrumbs });
    currentLocation = location;
    renderBreadcrumbs({ truncateLength });
  };
  \<close>
  The run is suspended at \<^verbatim>\<open>await\<close>. \<open>handleNavigation_request\<close> is the part before it:
  \<open>None\<close> when the run returns there, else the location the run goes on with.
  \<open>handleNavigation_commit\<close> is the part behind it, with the item that was resolved.
\<close>

definition handleNavigation_request :: "string \<Rightarrow> state \<Rightarrow> Location option" where
  "handleNavigation_request hash st =
     (case getLocationFromHash hash of
        None \<Rightarrow> None
      | Some location \<Rightarrow>
          (case currentLocation st of
             None \<Rightarrow> Some location
           | Some cur \<Rightarrow> if loc_uid cur = loc_uid location then None else Some location))"

definition handleNavigation_commit :: "ExtensionSettings \<Rightarrow> Location \<Rightarrow> BreadcrumbItem option \<Rightarrow> state \<Rightarrow> state" where
  "handleNavigation_commit settings location breadcrumbItem st =
     (case breadcrumbItem of
        None \<Rightarrow> st
      | Some item \<Rightarrow>
          renderBreadcrumbs (truncateLength settings)
            (st\<lparr>breadcrumbHistory := updateBreadcrumbHistory item (maxBreadcrumbs settings) (breadcrumbHistory st),
                currentLocation := Some location\<rparr>))"

text \<open>
  A run with no other run between its two parts: the new state and the calls of \<open>q\<close> it made.
\<close>

definition handleNavigation :: "ExtensionSettings \<Rightarrow> (query \<Rightarrow> rows) \<Rightarrow> string \<Rightarrow> state \<Rightarrow> state \<times> query list" where
  "handleNavigation settings q hash st =
     (case handleNavigation_request hash st of
        None \<Rightarrow> (st, [])
      | Some location \<Rightarrow>
          (let (breadcrumbItem, calls) = getBreadcrumbItemByUid q (loc_uid location)
           in (handleNavigation_commit settings location breadcrumbItem st, calls)))"

text \<open>
  Runs that overlap. The listener starts a run at every \<^verbatim>\<open>hashchange\<close>
  (\<^verbatim>\<open>void handleNavigation(settings)\<close>, not awaited), so a run can start while earlier ones
  are suspended. The suspended runs are kept with their locations, oldest first; an event is
  a change of the hash to a given value, or the end of the resolution of the suspended run
  at a given index, in any order.
\<close>

datatype event = HashChange string | Resolved nat

fun step :: "ExtensionSettings \<Rightarrow> (query \<Rightarrow> rows) \<Rightarrow> event \<Rightarrow> state \<times> Location list \<Rightarrow> state \<times> Location list" where
  "step settings q (HashChange hash) (st, pending) =
     (case handleNavigation_request hash st of
        None \<Rightarrow> (st, pending)
      | Some location \<Rightarrow> (st, pending @ [location]))"
| "step settings q (Resolved i) (st, pending) =
     (if i < length pending
      then (handleNavigation_commit settings (pending ! i)
              (fst (getBreadcrumbItemByUid q (loc_uid (pending ! i)))) st,
            take i pending @ drop (Suc i) pending)
      else (st, pending))"

fun run :: "ExtensionSettings \<Rightarrow> (query \<Rightarrow> rows) \<Rightarrow> event list \<Rightarrow> state \<times> Location list \<Rightarrow> state \<times> Location list" where
  "run settings q [] c = c"
| "run settings q (e # es) c = run settings q es (step settings q e c)"

text \<open>
  The commits of a sequence of events: the suspended runs whose resolution ended with an
  item, each with its location and that item, in the order in which the resolutions ended.
\<close>

fun commits :: "ExtensionSettings \<Rightarrow> (query \<Rightarrow> rows) \<Rightarrow> event list \<Rightarrow> state \<times> Location list
                  \<Rightarrow> (Location \<times> BreadcrumbItem) list" where
  "commits settings q [] c = []"
| "commits settings q (HashChange hash # es) c = commits settings q es (step settings q (HashChange hash) c)"
| "commits settings q (Resolved i # es) c =
     (if i < length (snd c)
      then (case fst (getBreadcrumbItemByUid q (loc_uid (snd c ! i))) of
              None \<Rightarrow> []
            | Some item \<Rightarrow> [(snd c ! i, item)])
      else [])
     @ commits settings q es (step settings q (Resolved i) c)"

text \<open>The state after activation: no history, no current location, the panel mounted and empty.\<close>

definition initial :: state where
  "initial = \<lparr>breadcrumbHistory = [], currentLocation = None, container = Some []\<rparr>"

text \<open>
  A graph for the examples: the pages \<open>A\<close> and \<open>B\<close>, the block \<open>xyz789\<close>, nothing else.
\<close>

definition exampleGraph :: "query \<Rightarrow> rows" where
  "exampleGraph x =
     (case x of
        TitleQuery u \<Rightarrow> (if u = ''A'' \<or> u = ''B'' then Some [[''Page '' @ u]] else Some [])
      | StringQuery u \<Rightarrow> (if u = ''xyz789'' then Some [[''a block'']] else Some []))"

section \<open>What a pattern matches\<close>

text \<open>
  The language of a pattern, without the order in which the matcher tries its choices: the
  words that the pattern matches from their first character to their last. A string
  contains a match when one of its substrings is such a word.
\<close>

fun accepts :: "item list \<Rightarrow> string \<Rightarrow> bool" where
  "accepts [] w = (w = [])"
| "accepts (Lit c # r) w = (\<exists>w'. w = c # w' \<and> accepts r w')"
| "accepts (Rep q m cls cap # r) w =
     (\<exists>a b. w = a @ b \<and> m \<le> length a \<and> (\<forall>x\<in>set a. cls x) \<and> accepts r b)"

definition contains :: "item list \<Rightarrow> string \<Rightarrow> bool" where
  "contains re h = (\<exists>p w t. h = p @ w @ t \<and> accepts re w)"

text \<open>
  The end of the block pattern: \<^verbatim>\<open>block=([a-zA-Z0-9_-]+)\<close>, and the same behind
  \<^verbatim>\<open>.*\<close>.
\<close>

definition paramPattern :: "item list" where
  "paramPattern = lits ''block='' @ [Rep Greedy 1 idChar True]"

definition tailPattern :: "item list" where
  "tailPattern = Rep Greedy 0 dot False # paramPattern"

section \<open>Properties of the history store\<close>

lemma update_eq_take:
  "0 \<le> cap \<Longrightarrow> updateBreadcrumbHistory e cap h = take (nat cap + 1) (e # filter (\<lambda>x. uid x \<noteq> uid e) h)"
  by (simp add: updateBreadcrumbHistory_def slice0_def Let_def nat_add_distrib)

lemma update_length: "0 \<le> cap \<Longrightarrow> length (updateBreadcrumbHistory e cap h) \<le> nat cap + 1"
  by (simp add: update_eq_take)

lemma distinct_map_take: "distinct (map f xs) \<Longrightarrow> distinct (map f (take n xs))"
  by (simp add: take_map [symmetric] del: take_map)

lemma update_distinct:
  assumes "0 \<le> cap" and "distinct (map uid h)"
  shows "distinct (map uid (updateBreadcrumbHistory e cap h))"
proof -
  let ?f = "filter (\<lambda>x. uid x \<noteq> uid e) h"
  have "distinct (map uid ?f)" using assms(2) by (rule distinct_map_filter)
  moreover have "uid e \<notin> set (map uid ?f)" by auto
  ultimately have "distinct (map uid (e # ?f))" by simp
  then have "distinct (map uid (take (nat cap + 1) (e # ?f)))" by (rule distinct_map_take)
  then show ?thesis using assms(1) by (simp only: update_eq_take)
qed

lemma upserts_invariant:
  "0 \<le> cap \<Longrightarrow> length h \<le> nat cap + 1 \<Longrightarrow> distinct (map uid h) \<Longrightarrow>
     length (upserts es cap h) \<le> nat cap + 1 \<and> distinct (map uid (upserts es cap h))"
proof (induction es arbitrary: h)
  case Nil
  then show ?case by simp
next
  case (Cons e es)
  have "length (updateBreadcrumbHistory e cap h) \<le> nat cap + 1"
    using Cons.prems(1) by (rule update_length)
  moreover have "distinct (map uid (updateBreadcrumbHistory e cap h))"
    using Cons.prems(1,3) by (rule update_distinct)
  ultimately show ?case using Cons.IH [OF Cons.prems(1)] by simp
qed

text \<open>
  C1. Starting from the empty history, after any sequence of \<open>upsert\<close> calls with the same
  \<open>cap > 0\<close> the history has at most \<open>cap + 1\<close> entries and no two entries with the same id.
\<close>

theorem C1_upserts_bounded_distinct:
  "0 < cap \<Longrightarrow> int (length (upserts es cap [])) \<le> cap + 1 \<and> distinct (map uid (upserts es cap []))"
  using upserts_invariant [of cap "[]" es] by auto

theorem C1_upserts_bounded_distinct_witness:
  "(0::int) < 2
   \<and> upserts [\<lparr>uid = ''a'', type = page, title = ''A''\<rparr>, \<lparr>uid = ''b'', type = block, title = ''B''\<rparr>,
              \<lparr>uid = ''a'', type = page, title = ''A2''\<rparr>, \<lparr>uid = ''c'', type = page, title = ''C''\<rparr>,
              \<lparr>uid = ''d'', type = page, title = ''D''\<rparr>] 2 []
      = [\<lparr>uid = ''d'', type = page, title = ''D''\<rparr>, \<lparr>uid = ''c'', type = page, title = ''C''\<rparr>,
         \<lparr>uid = ''a'', type = page, title = ''A2''\<rparr>]
   \<and> int (length (upserts [\<lparr>uid = ''a'', type = page, title = ''A''\<rparr>, \<lparr>uid = ''b'', type = block, title = ''B''\<rparr>,
              \<lparr>uid = ''a'', type = page, title = ''A2''\<rparr>, \<lparr>uid = ''c'', type = page, title = ''C''\<rparr>,
              \<lparr>uid = ''d'', type = page, title = ''D''\<rparr>] 2 [])) \<le> 2 + 1
   \<and> distinct (map uid (upserts [\<lparr>uid = ''a'', type = page, title = ''A''\<rparr>, \<lparr>uid = ''b'', type = block, title = ''B''\<rparr>,
              \<lparr>uid = ''a'', type = page, title = ''A2''\<rparr>, \<lparr>uid = ''c'', type = page, title = ''C''\<rparr>,
              \<lparr>uid = ''d'', type = page, title = ''D''\<rparr>] 2 []))"
  using C1_upserts_bounded_distinct [of 2 "[\<lparr>uid = ''a'', type = page, title = ''A''\<rparr>, \<lparr>uid = ''b'', type = block, title = ''B''\<rparr>,
              \<lparr>uid = ''a'', type = page, title = ''A2''\<rparr>, \<lparr>uid = ''c'', type = page, title = ''C''\<rparr>,
              \<lparr>uid = ''d'', type = page, title = ''D''\<rparr>]"]
  by (simp add: updateBreadcrumbHistory_def slice0_def)

lemma filter_take_filter: "filter P (take n (filter P xs)) = take n (filter P xs)"
proof -
  have "\<forall>x\<in>set (take n (filter P xs)). P x"
    by (auto dest: in_set_takeD)
  then show ?thesis by (simp only: filter_True)
qed

text \<open>
  C2. For \<open>cap > 0\<close>, \<open>upsert(entry, cap)\<close> removes every entry with the id of \<open>entry\<close>,
  prepends \<open>entry\<close> and keeps the first \<open>cap + 1\<close> elements. With ids \<open>a, b, c\<close> in the
  history and \<open>cap = 8\<close>, upserting an entry with id \<open>b\<close> yields the ids \<open>b, a, c\<close>; with
  \<open>cap = 2\<close>, four upserts with pairwise distinct ids leave exactly the last three entries,
  most recent first.
\<close>

theorem C2_upsert_contract:
  "(0 < cap \<longrightarrow> updateBreadcrumbHistory entry cap h = upsert_spec entry (nat cap) h)
   \<and> (uid a = ''a'' \<and> uid b = ''b'' \<and> uid c = ''c'' \<and> uid b' = ''b''
        \<longrightarrow> updateBreadcrumbHistory b' 8 [a, b, c] = [b', a, c])
   \<and> (distinct [uid e1, uid e2, uid e3, uid e4] \<longrightarrow> upserts [e1, e2, e3, e4] 2 h' = [e4, e3, e2])"
proof (intro conjI impI)
  assume "0 < cap"
  then show "updateBreadcrumbHistory entry cap h = upsert_spec entry (nat cap) h"
    by (simp add: update_eq_take upsert_spec_def)
next
  assume "uid a = ''a'' \<and> uid b = ''b'' \<and> uid c = ''c'' \<and> uid b' = ''b''"
  then show "updateBreadcrumbHistory b' 8 [a, b, c] = [b', a, c]"
    by (simp add: update_eq_take)
next
  assume d: "distinct [uid e1, uid e2, uid e3, uid e4]"
  have step: "\<And>e g. updateBreadcrumbHistory e 2 g = e # take 2 (filter (\<lambda>x. uid x \<noteq> uid e) g)"
    by (simp add: update_eq_take)
  show "upserts [e1, e2, e3, e4] 2 h' = [e4, e3, e2]"
    using d by (simp add: step)
qed

theorem C2_upsert_contract_witness:
  "(0::int) < 2
   \<and> updateBreadcrumbHistory \<lparr>uid = ''d'', type = page, title = ''D''\<rparr> 2
        [\<lparr>uid = ''c'', type = page, title = ''C''\<rparr>, \<lparr>uid = ''d'', type = page, title = ''old''\<rparr>,
         \<lparr>uid = ''b'', type = block, title = ''B''\<rparr>, \<lparr>uid = ''a'', type = page, title = ''A''\<rparr>]
      = [\<lparr>uid = ''d'', type = page, title = ''D''\<rparr>, \<lparr>uid = ''c'', type = page, title = ''C''\<rparr>,
         \<lparr>uid = ''b'', type = block, title = ''B''\<rparr>]
   \<and> upsert_spec \<lparr>uid = ''d'', type = page, title = ''D''\<rparr> (nat 2)
        [\<lparr>uid = ''c'', type = page, title = ''C''\<rparr>, \<lparr>uid = ''d'', type = page, title = ''old''\<rparr>,
         \<lparr>uid = ''b'', type = block, title = ''B''\<rparr>, \<lparr>uid = ''a'', type = page, title = ''A''\<rparr>]
      = [\<lparr>uid = ''d'', type = page, title = ''D''\<rparr>, \<lparr>uid = ''c'', type = page, title = ''C''\<rparr>,
         \<lparr>uid = ''b'', type = block, title = ''B''\<rparr>]
   \<and> updateBreadcrumbHistory \<lparr>uid = ''b'', type = page, title = ''B2''\<rparr> 8
        [\<lparr>uid = ''a'', type = page, title = ''A''\<rparr>, \<lparr>uid = ''b'', type = page, title = ''B''\<rparr>,
         \<lparr>uid = ''c'', type = page, title = ''C''\<rparr>]
      = [\<lparr>uid = ''b'', type = page, title = ''B2''\<rparr>, \<lparr>uid = ''a'', type = page, title = ''A''\<rparr>,
         \<lparr>uid = ''c'', type = page, title = ''C''\<rparr>]
   \<and> distinct [''w'', ''x'', ''y'', ''z'']
   \<and> upserts [\<lparr>uid = ''w'', type = page, title = ''W''\<rparr>, \<lparr>uid = ''x'', type = page, title = ''X''\<rparr>,
               \<lparr>uid = ''y'', type = page, title = ''Y''\<rparr>, \<lparr>uid = ''z'', type = page, title = ''Z''\<rparr>] 2
        [\<lparr>uid = ''a'', type = page, title = ''A''\<rparr>, \<lparr>uid = ''b'', type = page, title = ''B''\<rparr>]
      = [\<lparr>uid = ''z'', type = page, title = ''Z''\<rparr>, \<lparr>uid = ''y'', type = page, title = ''Y''\<rparr>,
         \<lparr>uid = ''x'', type = page, title = ''X''\<rparr>]"
  using C2_upsert_contract [where cap = 2 and entry = "\<lparr>uid = ''d'', type = page, title = ''D''\<rparr>"
        and h = "[\<lparr>uid = ''c'', type = page, title = ''C''\<rparr>, \<lparr>uid = ''d'', type = page, title = ''old''\<rparr>,
         \<lparr>uid = ''b'', type = block, title = ''B''\<rparr>, \<lparr>uid = ''a'', type = page, title = ''A''\<rparr>]"
        and a = "\<lparr>uid = ''a'', type = page, title = ''A''\<rparr>" and b = "\<lparr>uid = ''b'', type = page, title = ''B''\<rparr>"
        and c = "\<lparr>uid = ''c'', type = page, title = ''C''\<rparr>" and b' = "\<lparr>uid = ''b'', type = page, title = ''B2''\<rparr>"
        and h' = "[\<lparr>uid = ''a'', type = page, title = ''A''\<rparr>, \<lparr>uid = ''b'', type = page, title = ''B''\<rparr>]"
        and ?e1.0 = "\<lparr>uid = ''w'', type = page, title = ''W''\<rparr>" and ?e2.0 = "\<lparr>uid = ''x'', type = page, title = ''X''\<rparr>"
        and ?e3.0 = "\<lparr>uid = ''y'', type = page, title = ''Y''\<rparr>" and ?e4.0 = "\<lparr>uid = ''z'', type = page, title = ''Z''\<rparr>"]
  by (simp add: upsert_spec_def)

text \<open>
  C4. For \<open>cap > 0\<close>, applying \<open>upsert(e, cap)\<close> twice in a row gives the same history as
  applying it once.
\<close>

theorem C4_upsert_idempotent:
  "0 < cap \<Longrightarrow> updateBreadcrumbHistory e cap (updateBreadcrumbHistory e cap h) = updateBreadcrumbHistory e cap h"
  by (simp add: update_eq_take filter_take_filter)

theorem C4_upsert_idempotent_witness:
  "(0::int) < 1
   \<and> updateBreadcrumbHistory \<lparr>uid = ''b'', type = page, title = ''B''\<rparr> 1
        [\<lparr>uid = ''a'', type = page, title = ''A''\<rparr>, \<lparr>uid = ''b'', type = page, title = ''old''\<rparr>,
         \<lparr>uid = ''c'', type = page, title = ''C''\<rparr>]
      = [\<lparr>uid = ''b'', type = page, title = ''B''\<rparr>, \<lparr>uid = ''a'', type = page, title = ''A''\<rparr>]
   \<and> updateBreadcrumbHistory \<lparr>uid = ''b'', type = page, title = ''B''\<rparr> 1
        (updateBreadcrumbHistory \<lparr>uid = ''b'', type = page, title = ''B''\<rparr> 1
          [\<lparr>uid = ''a'', type = page, title = ''A''\<rparr>, \<lparr>uid = ''b'', type = page, title = ''old''\<rparr>,
           \<lparr>uid = ''c'', type = page, title = ''C''\<rparr>])
      = [\<lparr>uid = ''b'', type = page, title = ''B''\<rparr>, \<lparr>uid = ''a'', type = page, title = ''A''\<rparr>]"
  using C4_upsert_idempotent [of 1 "\<lparr>uid = ''b'', type = page, title = ''B''\<rparr>"
        "[\<lparr>uid = ''a'', type = page, title = ''A''\<rparr>, \<lparr>uid = ''b'', type = page, title = ''old''\<rparr>,
          \<lparr>uid = ''c'', type = page, title = ''C''\<rparr>]"]
  by (simp add: updateBreadcrumbHistory_def slice0_def)

section \<open>Properties of the content labeler\<close>

lemma first_some_None: "(\<forall>x\<in>set xs. x = None) \<Longrightarrow> first_some xs = None"
  by (induction xs rule: first_some.induct) auto

text \<open>A pattern with a literal character matches only where that character occurs.\<close>

lemma matchAt_needs_lit: "Lit c \<in> set re \<Longrightarrow> c \<notin> set s \<Longrightarrow> matchAt re s = None"
proof (induction re s rule: matchAt.induct)
  case (1 s)
  then show ?case by simp
next
  case (2 c' r)
  then show ?case by simp
next
  case (3 c' r x xs)
  then show ?case by auto
next
  case (4 q m cls cap r s)
  have "matchAt r (drop n s) = None" if "n \<in> set (counts q m (length (takeWhile cls s)))" for n
  proof -
    have "Lit c \<in> set r" using "4.prems"(1) by simp
    moreover have "c \<notin> set (drop n s)" using "4.prems"(2) by (auto dest: in_set_dropD)
    ultimately show ?thesis using "4.IH" [OF that] by simp
  qed
  then show ?case by (simp add: first_some_None)
qed

lemma replaceAll_no_lit: "Lit c \<in> set re \<Longrightarrow> c \<notin> set s \<Longrightarrow> replaceAll re rep s = s"
  by (induction s) (simp_all add: matchAt_needs_lit)

lemma rules_need_markup: "\<forall>(re, rep)\<in>set markdownRules. \<exists>c\<in>markupChars. Lit c \<in> set re"
  by (simp add: markdownRules_def markupChars_def lits_def)

lemma replaceEach_clean:
  "\<forall>(re, rep)\<in>set rules. \<exists>c\<in>M. Lit c \<in> set re \<Longrightarrow> set s \<inter> M = {} \<Longrightarrow> replaceEach rules s = s"
proof (induction rules s rule: replaceEach.induct)
  case (1 s)
  then show ?case by simp
next
  case (2 re rep rules s)
  from "2.prems"(1) obtain c where c: "c \<in> M" "Lit c \<in> set re" by auto
  with "2.prems"(2) have "c \<notin> set s" by auto
  with c have "replaceAll re rep s = s" by (simp add: replaceAll_no_lit)
  with 2 show ?case by simp
qed

lemma dropWhile_idem: "dropWhile P (dropWhile P xs) = dropWhile P xs"
  by (induction xs) auto

lemma trim_trim: "trim (trim s) = trim s"
proof -
  let ?u = "dropWhile isWhiteSpace s"
  show ?thesis
  proof (cases ?u)
    case Nil
    have e: "trim s = []" unfolding trim_def Nil by simp
    show ?thesis unfolding e by (simp add: trim_def)
  next
    case (Cons a u')
    then have a: "\<not> isWhiteSpace a" using hd_dropWhile [of isWhiteSpace s] by force
    then have t: "trim s = a # rev (dropWhile isWhiteSpace (rev u'))"
      using Cons by (simp add: trim_def dropWhile_append3)
    have "trim (trim s) = rev (dropWhile isWhiteSpace (rev (trim s)))"
      unfolding trim_def [of "trim s"] using t a by simp
    also have "rev (trim s) = dropWhile isWhiteSpace (rev ?u)" by (simp add: trim_def)
    finally show ?thesis by (simp add: dropWhile_idem trim_def)
  qed
qed

lemma strip_clean: "set s \<inter> markupChars = {} \<Longrightarrow> stripMarkdown s = trim s"
  by (simp add: stripMarkdown_def replaceEach_clean [OF rules_need_markup])

lemma truncateText_short:
  "int (length (stripMarkdown t)) \<le> n \<Longrightarrow> truncateText t n = stripMarkdown t"
  by (simp add: truncateText_def)

lemma truncateText_long:
  "1 \<le> n \<Longrightarrow> n < int (length (stripMarkdown t)) \<Longrightarrow>
     truncateText t n = take (nat (n - 1)) (stripMarkdown t) @ ''...''
     \<and> int (length (truncateText t n)) = n + 2"
  by (simp add: truncateText_def slice0_def Let_def min_def)

text \<open>
  C3 asks that \<open>truncate(text, n)\<close> has at most \<open>n\<close> characters for \<open>n \<ge> 1\<close>. The source
  keeps \<open>n - 1\<close> characters, room for a marker of one character, and appends a marker of
  three: with the default length 25, a title of the 26 letters is cut to 24 letters and
  \<^verbatim>\<open>...\<close>, 27 characters.
\<close>

theorem C3_truncate_exceeds_maxLength:
  "stripMarkdown ''abcdefghijklmnopqrstuvwxyz'' = ''abcdefghijklmnopqrstuvwxyz''
   \<and> truncateText ''abcdefghijklmnopqrstuvwxyz'' 25 = ''abcdefghijklmnopqrstuvwx...''
   \<and> length (truncateText ''abcdefghijklmnopqrstuvwxyz'' 25) = 27
   \<and> \<not> int (length (truncateText ''abcdefghijklmnopqrstuvwxyz'' 25)) \<le> 25"
  by code_simp

lemma replaceAll_no_match: "search re s = None \<Longrightarrow> replaceAll re rep s = s"
proof (induction s)
  case Nil
  then show ?case by (cases "matchAt re []") auto
next
  case (Cons c cs)
  from Cons.prems have "matchAt re (c # cs) = None" "search re cs = None"
    by (auto split: option.splits)
  with Cons.IH show ?case by simp
qed

lemma replaceEach_no_match:
  "\<forall>(re, rep)\<in>set rules. search re s = None \<Longrightarrow> replaceEach rules s = s"
proof (induction rules s rule: replaceEach.induct)
  case (1 s)
  then show ?case by simp
next
  case (2 re rep rules s)
  from "2.prems" have "search re s = None" by simp
  then have "replaceAll re rep s = s" by (rule replaceAll_no_match)
  with 2 show ?case by simp
qed

text \<open>
  C5 asks that \<open>stripMarkup (stripMarkup x) = stripMarkup x\<close> for every \<open>x\<close>. Each
  replacement runs once over the text, so markup that only appears when an inner construct
  has been removed stays: a reference nested in a reference loses one pair of brackets per
  application.
\<close>

theorem C5_strip_not_idempotent:
  "stripMarkdown (stripMarkdown ''[[[[a]]]]'') \<noteq> stripMarkdown ''[[[[a]]]]''"
  by code_simp

text \<open>
  C5, amended. When none of the thirteen patterns matches anywhere in \<open>stripMarkup x\<close>,
  it is a fixed point: \<open>stripMarkup (stripMarkup x) = stripMarkup x\<close>.
\<close>

theorem C5_strip_fixed_when_no_rule_matches:
  "\<forall>(re, rep)\<in>set markdownRules. search re (stripMarkdown x) = None \<Longrightarrow>
     stripMarkdown (stripMarkdown x) = stripMarkdown x"
proof -
  assume "\<forall>(re, rep)\<in>set markdownRules. search re (stripMarkdown x) = None"
  then have "replaceEach markdownRules (stripMarkdown x) = stripMarkdown x"
    by (rule replaceEach_no_match)
  then have "stripMarkdown (stripMarkdown x) = trim (stripMarkdown x)"
    by (simp add: stripMarkdown_def [of "stripMarkdown x"])
  also have "\<dots> = stripMarkdown x" by (simp add: stripMarkdown_def trim_trim)
  finally show ?thesis .
qed

theorem C5_strip_fixed_when_no_rule_matches_witness:
  "stripMarkdown ''**Meeting** (2024) a_b ```x``` ![i](u)'' = ''Meeting (2024) a_b [code] [img]''
   \<and> list_all (\<lambda>(re, rep). search re (stripMarkdown ''**Meeting** (2024) a_b ```x``` ![i](u)'') = None) markdownRules
   \<and> stripMarkdown (stripMarkdown ''**Meeting** (2024) a_b ```x``` ![i](u)'')
       = stripMarkdown ''**Meeting** (2024) a_b ```x``` ![i](u)''"
proof -
  have e: "stripMarkdown ''**Meeting** (2024) a_b ```x``` ![i](u)'' = ''Meeting (2024) a_b [code] [img]''"
    by code_simp
  have h: "list_all (\<lambda>(re, rep). search re (stripMarkdown ''**Meeting** (2024) a_b ```x``` ![i](u)'') = None) markdownRules"
    unfolding e by code_simp
  then have h': "\<forall>(re, rep)\<in>set markdownRules. search re (stripMarkdown ''**Meeting** (2024) a_b ```x``` ![i](u)'') = None"
    by (simp only: list_all_iff)
  from C5_strip_fixed_when_no_rule_matches [OF h'] e h show ?thesis by (intro conjI)
qed

section \<open>Properties of the settings\<close>

lemma parsePositiveInteger_fallback:
  "\<not> (isFinite (toNumber v) \<and> positive (toNumber v)) \<Longrightarrow> parsePositiveInteger toNumber v fallback = fallback"
  by (auto simp: parsePositiveInteger_def Let_def)

lemma parsePositiveInteger_floor:
  "toNumber v = Finite r \<Longrightarrow> 0 < r \<Longrightarrow>
     parsePositiveInteger toNumber v fallback = \<lfloor>r\<rfloor> \<and> 0 \<le> parsePositiveInteger toNumber v fallback"
  by (simp add: parsePositiveInteger_def)

text \<open>
  C9 asks that parsing always yields a positive integer. \<open>parsePositiveInteger\<close> tests
  \<open>parsed > 0\<close> before it takes the floor, so a value strictly between 0 and 1 passes the
  test and becomes 0: with the number 0.5 stored under both keys, both settings are 0.
\<close>

theorem C9_parse_fraction_is_zero:
  "parsePositiveInteger (\<lambda>v. v) (Finite (1 / 2)) 8 = 0
   \<and> readSettings (\<lambda>v. v) (\<lambda>key. Finite (1 / 2)) = \<lparr>maxBreadcrumbs = 0, truncateLength = 0\<rparr>"
  by code_simp

section \<open>Properties of the navigation controller\<close>

lemma renderBreadcrumbs_keeps:
  "breadcrumbHistory (renderBreadcrumbs n st) = breadcrumbHistory st"
  "currentLocation (renderBreadcrumbs n st) = currentLocation st"
  by (simp_all add: renderBreadcrumbs_def Let_def split: option.splits)

lemma resolution_miss:
  "queryPageTitle q u = None \<Longrightarrow> queryBlockString q u = None \<Longrightarrow> fst (getBreadcrumbItemByUid q u) = None"
  by (simp add: getBreadcrumbItemByUid_def del: queryPageTitle.simps queryBlockString.simps)

text \<open>
  C6. A run leaves the state as it was (the history and the current location with it) when
  the hash resolves to no location, when it resolves to the uid of the current location
  (both without a call of the resolver, and without a run left suspended), and when
  neither a page nor a block is found for the uid, in a run alone or among overlapping runs.
\<close>

theorem C6_discarded_runs:
  "(getLocationFromHash h1 = None \<longrightarrow>
      handleNavigation settings q h1 st1 = (st1, [])
      \<and> step settings q (HashChange h1) (st1, pending) = (st1, pending))
   \<and> (getLocationFromHash h2 = Some location2 \<and> currentLocation st2 = Some cur
        \<and> loc_uid cur = loc_uid location2 \<longrightarrow>
      handleNavigation settings q h2 st2 = (st2, [])
      \<and> step settings q (HashChange h2) (st2, pending) = (st2, pending))
   \<and> (getLocationFromHash h3 = Some location3
        \<and> queryPageTitle q (loc_uid location3) = None \<and> queryBlockString q (loc_uid location3) = None \<longrightarrow>
      fst (handleNavigation settings q h3 st3) = st3)
   \<and> (i < length pending
        \<and> queryPageTitle q (loc_uid (pending ! i)) = None \<and> queryBlockString q (loc_uid (pending ! i)) = None \<longrightarrow>
      fst (step settings q (Resolved i) (st4, pending)) = st4)"
proof (intro conjI impI)
  assume "getLocationFromHash h1 = None"
  then have "handleNavigation_request h1 st1 = None" by (simp add: handleNavigation_request_def)
  then show "handleNavigation settings q h1 st1 = (st1, [])"
    and "step settings q (HashChange h1) (st1, pending) = (st1, pending)"
    by (simp_all add: handleNavigation_def)
next
  assume "getLocationFromHash h2 = Some location2 \<and> currentLocation st2 = Some cur
        \<and> loc_uid cur = loc_uid location2"
  then have "handleNavigation_request h2 st2 = None" by (simp add: handleNavigation_request_def)
  then show "handleNavigation settings q h2 st2 = (st2, [])"
    and "step settings q (HashChange h2) (st2, pending) = (st2, pending)"
    by (simp_all add: handleNavigation_def)
next
  assume a: "getLocationFromHash h3 = Some location3
        \<and> queryPageTitle q (loc_uid location3) = None \<and> queryBlockString q (loc_uid location3) = None"
  then have "fst (getBreadcrumbItemByUid q (loc_uid location3)) = None" by (simp add: resolution_miss)
  then show "fst (handleNavigation settings q h3 st3) = st3"
    using a by (auto simp: handleNavigation_def handleNavigation_request_def handleNavigation_commit_def
        split: option.splits prod.splits)
next
  assume a: "i < length pending
        \<and> queryPageTitle q (loc_uid (pending ! i)) = None \<and> queryBlockString q (loc_uid (pending ! i)) = None"
  then have "fst (getBreadcrumbItemByUid q (loc_uid (pending ! i))) = None" by (simp add: resolution_miss)
  then show "fst (step settings q (Resolved i) (st4, pending)) = st4"
    using a by (simp add: handleNavigation_commit_def)
qed

theorem C6_discarded_runs_witness:
  "getLocationFromHash ''#/app/g/search'' = None
   \<and> getLocationFromHash ''#/app/g/page/A'' = Some \<lparr>loc_type = page, loc_uid = ''A''\<rparr>
   \<and> currentLocation (initial\<lparr>currentLocation := Some \<lparr>loc_type = page, loc_uid = ''A''\<rparr>\<rparr>)
        = Some \<lparr>loc_type = page, loc_uid = ''A''\<rparr>
   \<and> getLocationFromHash ''#/app/g/page/gone'' = Some \<lparr>loc_type = page, loc_uid = ''gone''\<rparr>
   \<and> queryPageTitle exampleGraph ''gone'' = None \<and> queryBlockString exampleGraph ''gone'' = None
   \<and> handleNavigation DEFAULT_SETTINGS exampleGraph ''#/app/g/search'' initial = (initial, [])
   \<and> handleNavigation DEFAULT_SETTINGS exampleGraph ''#/app/g/page/A''
        (initial\<lparr>currentLocation := Some \<lparr>loc_type = page, loc_uid = ''A''\<rparr>\<rparr>)
      = (initial\<lparr>currentLocation := Some \<lparr>loc_type = page, loc_uid = ''A''\<rparr>\<rparr>, [])
   \<and> fst (handleNavigation DEFAULT_SETTINGS exampleGraph ''#/app/g/page/gone'' initial) = initial
   \<and> fst (step DEFAULT_SETTINGS exampleGraph (Resolved 0) (initial, [\<lparr>loc_type = page, loc_uid = ''gone''\<rparr>]))
      = initial"
proof -
  have l1: "getLocationFromHash ''#/app/g/search'' = None" by code_simp
  have l2: "getLocationFromHash ''#/app/g/page/A'' = Some \<lparr>loc_type = page, loc_uid = ''A''\<rparr>"
    by code_simp
  have l3: "getLocationFromHash ''#/app/g/page/gone'' = Some \<lparr>loc_type = page, loc_uid = ''gone''\<rparr>"
    by code_simp
  have m: "queryPageTitle exampleGraph ''gone'' = None" "queryBlockString exampleGraph ''gone'' = None"
    by (simp_all add: exampleGraph_def)
  show ?thesis
    using C6_discarded_runs [where ?h1.0 = "''#/app/g/search''" and ?st1.0 = initial
        and ?h2.0 = "''#/app/g/page/A''" and ?location2.0 = "\<lparr>loc_type = page, loc_uid = ''A''\<rparr>"
        and cur = "\<lparr>loc_type = page, loc_uid = ''A''\<rparr>"
        and ?st2.0 = "initial\<lparr>currentLocation := Some \<lparr>loc_type = page, loc_uid = ''A''\<rparr>\<rparr>"
        and ?h3.0 = "''#/app/g/page/gone''" and ?location3.0 = "\<lparr>loc_type = page, loc_uid = ''gone''\<rparr>"
        and ?st3.0 = initial and ?st4.0 = initial and i = 0
        and pending = "[\<lparr>loc_type = page, loc_uid = ''gone''\<rparr>]"
        and q = exampleGraph and settings = DEFAULT_SETTINGS]
      l1 l2 l3 m
    by simp
qed

lemma upserts_append: "upserts (xs @ ys) cap h = upserts ys cap (upserts xs cap h)"
  by (induction xs arbitrary: h) simp_all

lemma step_HashChange_state: "fst (step settings q (HashChange hash) c) = fst c"
  by (cases c) (simp split: option.splits)

lemma step_Resolved_none:
  "\<not> i < length (snd c) \<or> fst (getBreadcrumbItemByUid q (loc_uid (snd c ! i))) = None \<Longrightarrow>
     fst (step settings q (Resolved i) c) = fst c"
  by (cases c) (auto simp: handleNavigation_commit_def)

lemma step_Resolved_some:
  "i < length (snd c) \<Longrightarrow> fst (getBreadcrumbItemByUid q (loc_uid (snd c ! i))) = Some item \<Longrightarrow>
     currentLocation (fst (step settings q (Resolved i) c)) = Some (snd c ! i)
     \<and> breadcrumbHistory (fst (step settings q (Resolved i) c))
       = updateBreadcrumbHistory item (maxBreadcrumbs settings) (breadcrumbHistory (fst c))"
  by (cases c) (simp add: handleNavigation_commit_def renderBreadcrumbs_keeps)

lemma run_commits:
  "currentLocation (fst (run settings q es c))
     = (if commits settings q es c = [] then currentLocation (fst c)
        else Some (fst (last (commits settings q es c))))
   \<and> breadcrumbHistory (fst (run settings q es c))
     = upserts (map snd (commits settings q es c)) (maxBreadcrumbs settings) (breadcrumbHistory (fst c))"
proof (induction es arbitrary: c)
  case Nil
  then show ?case by simp
next
  case (Cons e es)
  show ?case
  proof (cases e)
    case (HashChange hash)
    with Cons.IH [of "step settings q (HashChange hash) c"] show ?thesis
      by (simp add: step_HashChange_state)
  next
    case (Resolved i)
    let ?c' = "step settings q (Resolved i) c"
    note ih = Cons.IH [of ?c']
    show ?thesis
    proof (cases "i < length (snd c) \<and> fst (getBreadcrumbItemByUid q (loc_uid (snd c ! i))) \<noteq> None")
      case False
      then have n: "\<not> i < length (snd c) \<or> fst (getBreadcrumbItemByUid q (loc_uid (snd c ! i))) = None"
        by blast
      have s: "fst ?c' = fst c" using n by (rule step_Resolved_none)
      have "commits settings q (Resolved i # es) c = commits settings q es ?c'"
        using n by auto
      with ih s Resolved show ?thesis by simp
    next
      case True
      then obtain item where i: "i < length (snd c)"
        and it: "fst (getBreadcrumbItemByUid q (loc_uid (snd c ! i))) = Some item" by auto
      note s = step_Resolved_some [OF i it, of settings]
      have cm: "commits settings q (Resolved i # es) c = (snd c ! i, item) # commits settings q es ?c'"
        using i it by simp
      show ?thesis unfolding Resolved run.simps cm using ih s by simp
    qed
  qed
qed

text \<open>
  C8 asks that with overlapping runs the last requested location wins. The run of the source
  commits behind its \<^verbatim>\<open>await\<close> without looking at the hash or at the current location
  again: when the hash goes to page \<open>A\<close> and then to page \<open>B\<close>, and the resolution of \<open>B\<close>
  ends first, \<open>B\<close> is committed, and then the older run puts \<open>A\<close> in front of it and makes
  \<open>A\<close> the current location, which is not the location of the last hash.
\<close>

theorem C8_stale_run_overwrites:
  "run DEFAULT_SETTINGS exampleGraph
       [HashChange ''#/app/g/page/A'', HashChange ''#/app/g/page/B'', Resolved 1] (initial, [])
     = (\<lparr>breadcrumbHistory = [\<lparr>uid = ''B'', type = page, title = ''Page B''\<rparr>],
         currentLocation = Some \<lparr>loc_type = page, loc_uid = ''B''\<rparr>,
         container = Some [BreadcrumbElement ''breadcrumb-item breadcrumb-page breadcrumb-current''
                             ''Page B'' ''Page B'' None]\<rparr>,
        [\<lparr>loc_type = page, loc_uid = ''A''\<rparr>])
   \<and> run DEFAULT_SETTINGS exampleGraph
       [HashChange ''#/app/g/page/A'', HashChange ''#/app/g/page/B'', Resolved 1, Resolved 0] (initial, [])
     = (\<lparr>breadcrumbHistory = [\<lparr>uid = ''A'', type = page, title = ''Page A''\<rparr>,
                               \<lparr>uid = ''B'', type = page, title = ''Page B''\<rparr>],
         currentLocation = Some \<lparr>loc_type = page, loc_uid = ''A''\<rparr>,
         container = Some [BreadcrumbElement ''breadcrumb-item breadcrumb-page'' ''Page B'' ''Page B''
                             (Some (''B'', page)),
                           SeparatorElement,
                           BreadcrumbElement ''breadcrumb-item breadcrumb-page breadcrumb-current''
                             ''Page A'' ''Page A'' None]\<rparr>,
        [])
   \<and> currentLocation (fst (run DEFAULT_SETTINGS exampleGraph
       [HashChange ''#/app/g/page/A'', HashChange ''#/app/g/page/B'', Resolved 1, Resolved 0] (initial, [])))
     \<noteq> getLocationFromHash ''#/app/g/page/B''"
  by code_simp

text \<open>
  C8, amended. There is no staleness check: a run whose resolution ends with an item commits
  it then, whatever has happened since the run started. After any sequence of hash changes
  and ends of resolutions, the current location is the location of the last commit (and as
  before when there was none), and the history is the upsert of the committed items in the
  order of the commits. So of two overlapping runs that both find an item, the one whose
  resolution ends last wins, whichever was requested last.
\<close>

theorem C8_last_commit_wins:
  "currentLocation (fst (run settings q es c))
     = (if commits settings q es c = [] then currentLocation (fst c)
        else Some (fst (last (commits settings q es c))))
   \<and> breadcrumbHistory (fst (run settings q es c))
     = upserts (map snd (commits settings q es c)) (maxBreadcrumbs settings) (breadcrumbHistory (fst c))
   \<and> (handleNavigation_request ha st = Some a \<and> handleNavigation_request hb st = Some b
        \<and> fst (getBreadcrumbItemByUid q (loc_uid a)) = Some ia
        \<and> fst (getBreadcrumbItemByUid q (loc_uid b)) = Some ib \<longrightarrow>
      currentLocation (fst (run settings q [HashChange ha, HashChange hb, Resolved 1, Resolved 0] (st, [])))
        = Some a
      \<and> breadcrumbHistory (fst (run settings q [HashChange ha, HashChange hb, Resolved 1, Resolved 0] (st, [])))
        = updateBreadcrumbHistory ia (maxBreadcrumbs settings)
            (updateBreadcrumbHistory ib (maxBreadcrumbs settings) (breadcrumbHistory st))
      \<and> currentLocation (fst (run settings q [HashChange ha, HashChange hb, Resolved 0, Resolved 0] (st, [])))
        = Some b
      \<and> breadcrumbHistory (fst (run settings q [HashChange ha, HashChange hb, Resolved 0, Resolved 0] (st, [])))
        = updateBreadcrumbHistory ib (maxBreadcrumbs settings)
            (updateBreadcrumbHistory ia (maxBreadcrumbs settings) (breadcrumbHistory st)))"
proof (intro conjI impI)
  show "currentLocation (fst (run settings q es c))
     = (if commits settings q es c = [] then currentLocation (fst c)
        else Some (fst (last (commits settings q es c))))"
    using run_commits [of settings q es c] by (rule conjunct1)
  show "breadcrumbHistory (fst (run settings q es c))
     = upserts (map snd (commits settings q es c)) (maxBreadcrumbs settings) (breadcrumbHistory (fst c))"
    using run_commits [of settings q es c] by (rule conjunct2)
next
  assume a: "handleNavigation_request ha st = Some a \<and> handleNavigation_request hb st = Some b
        \<and> fst (getBreadcrumbItemByUid q (loc_uid a)) = Some ia
        \<and> fst (getBreadcrumbItemByUid q (loc_uid b)) = Some ib"
  then have p: "run settings q [HashChange ha, HashChange hb] (st, []) = (st, [a, b])" by simp
  have ba: "commits settings q [HashChange ha, HashChange hb, Resolved 1, Resolved 0] (st, []) = [(b, ib), (a, ia)]"
    using a by simp
  have ab: "commits settings q [HashChange ha, HashChange hb, Resolved 0, Resolved 0] (st, []) = [(a, ia), (b, ib)]"
    using a by simp
  note r1 = run_commits [of settings q "[HashChange ha, HashChange hb, Resolved 1, Resolved 0]" "(st, [])"]
  note r2 = run_commits [of settings q "[HashChange ha, HashChange hb, Resolved 0, Resolved 0]" "(st, [])"]
  show "currentLocation (fst (run settings q [HashChange ha, HashChange hb, Resolved 1, Resolved 0] (st, [])))
        = Some a"
    using r1 unfolding ba by simp
  show "breadcrumbHistory (fst (run settings q [HashChange ha, HashChange hb, Resolved 1, Resolved 0] (st, [])))
        = updateBreadcrumbHistory ia (maxBreadcrumbs settings)
            (updateBreadcrumbHistory ib (maxBreadcrumbs settings) (breadcrumbHistory st))"
    using r1 unfolding ba by simp
  show "currentLocation (fst (run settings q [HashChange ha, HashChange hb, Resolved 0, Resolved 0] (st, [])))
        = Some b"
    using r2 unfolding ab by simp
  show "breadcrumbHistory (fst (run settings q [HashChange ha, HashChange hb, Resolved 0, Resolved 0] (st, [])))
        = updateBreadcrumbHistory ib (maxBreadcrumbs settings)
            (updateBreadcrumbHistory ia (maxBreadcrumbs settings) (breadcrumbHistory st))"
    using r2 unfolding ab by simp
qed

theorem C8_last_commit_wins_witness:
  "handleNavigation_request ''#/app/g/page/A'' initial = Some \<lparr>loc_type = page, loc_uid = ''A''\<rparr>
   \<and> handleNavigation_request ''#/app/g/page/B'' initial = Some \<lparr>loc_type = page, loc_uid = ''B''\<rparr>
   \<and> fst (getBreadcrumbItemByUid exampleGraph ''A'') = Some \<lparr>uid = ''A'', type = page, title = ''Page A''\<rparr>
   \<and> fst (getBreadcrumbItemByUid exampleGraph ''B'') = Some \<lparr>uid = ''B'', type = page, title = ''Page B''\<rparr>
   \<and> currentLocation (fst (run DEFAULT_SETTINGS exampleGraph
        [HashChange ''#/app/g/page/A'', HashChange ''#/app/g/page/B'', Resolved 1, Resolved 0] (initial, [])))
      = Some \<lparr>loc_type = page, loc_uid = ''A''\<rparr>
   \<and> currentLocation (fst (run DEFAULT_SETTINGS exampleGraph
        [HashChange ''#/app/g/page/A'', HashChange ''#/app/g/page/B'', Resolved 0, Resolved 0] (initial, [])))
      = Some \<lparr>loc_type = page, loc_uid = ''B''\<rparr>
   \<and> commits DEFAULT_SETTINGS exampleGraph
        [HashChange ''#/app/g/page/gone'', HashChange ''#/app/g/page/B'', Resolved 1, Resolved 0] (initial, [])
      = [(\<lparr>loc_type = page, loc_uid = ''B''\<rparr>, \<lparr>uid = ''B'', type = page, title = ''Page B''\<rparr>)]
   \<and> currentLocation (fst (run DEFAULT_SETTINGS exampleGraph
        [HashChange ''#/app/g/page/gone'', HashChange ''#/app/g/page/B'', Resolved 1, Resolved 0] (initial, [])))
      = Some \<lparr>loc_type = page, loc_uid = ''B''\<rparr>
   \<and> breadcrumbHistory (fst (run DEFAULT_SETTINGS exampleGraph
        [HashChange ''#/app/g/page/gone'', HashChange ''#/app/g/page/B'', Resolved 1, Resolved 0] (initial, [])))
      = [\<lparr>uid = ''B'', type = page, title = ''Page B''\<rparr>]"
proof -
  have qa: "handleNavigation_request ''#/app/g/page/A'' initial = Some \<lparr>loc_type = page, loc_uid = ''A''\<rparr>"
    by code_simp
  have qb: "handleNavigation_request ''#/app/g/page/B'' initial = Some \<lparr>loc_type = page, loc_uid = ''B''\<rparr>"
    by code_simp
  have ia: "fst (getBreadcrumbItemByUid exampleGraph ''A'') = Some \<lparr>uid = ''A'', type = page, title = ''Page A''\<rparr>"
    by (simp add: getBreadcrumbItemByUid_def exampleGraph_def)
  have ib: "fst (getBreadcrumbItemByUid exampleGraph ''B'') = Some \<lparr>uid = ''B'', type = page, title = ''Page B''\<rparr>"
    by (simp add: getBreadcrumbItemByUid_def exampleGraph_def)
  have ia': "fst (getBreadcrumbItemByUid exampleGraph (loc_uid \<lparr>loc_type = page, loc_uid = ''A''\<rparr>))
      = Some \<lparr>uid = ''A'', type = page, title = ''Page A''\<rparr>" using ia by simp
  have ib': "fst (getBreadcrumbItemByUid exampleGraph (loc_uid \<lparr>loc_type = page, loc_uid = ''B''\<rparr>))
      = Some \<lparr>uid = ''B'', type = page, title = ''Page B''\<rparr>" using ib by simp
  note t = C8_last_commit_wins [where settings = DEFAULT_SETTINGS and q = exampleGraph
      and es = "[HashChange ''#/app/g/page/gone'', HashChange ''#/app/g/page/B'', Resolved 1, Resolved 0]"
      and c = "(initial, [])" and st = initial
      and ha = "''#/app/g/page/A''" and hb = "''#/app/g/page/B''"
      and a = "\<lparr>loc_type = page, loc_uid = ''A''\<rparr>" and b = "\<lparr>loc_type = page, loc_uid = ''B''\<rparr>"
      and ia = "\<lparr>uid = ''A'', type = page, title = ''Page A''\<rparr>"
      and ib = "\<lparr>uid = ''B'', type = page, title = ''Page B''\<rparr>"]
  have cm: "commits DEFAULT_SETTINGS exampleGraph
        [HashChange ''#/app/g/page/gone'', HashChange ''#/app/g/page/B'', Resolved 1, Resolved 0] (initial, [])
      = [(\<lparr>loc_type = page, loc_uid = ''B''\<rparr>, \<lparr>uid = ''B'', type = page, title = ''Page B''\<rparr>)]"
    by code_simp
  have u: "updateBreadcrumbHistory \<lparr>uid = ''B'', type = page, title = ''Page B''\<rparr>
      (maxBreadcrumbs DEFAULT_SETTINGS) (breadcrumbHistory initial)
      = [\<lparr>uid = ''B'', type = page, title = ''Page B''\<rparr>]"
    by (simp add: updateBreadcrumbHistory_def DEFAULT_SETTINGS_def initial_def)
  have r1: "currentLocation (fst (run DEFAULT_SETTINGS exampleGraph
        [HashChange ''#/app/g/page/A'', HashChange ''#/app/g/page/B'', Resolved 1, Resolved 0] (initial, [])))
      = Some \<lparr>loc_type = page, loc_uid = ''A''\<rparr>"
    using t qa qb ia' ib' by blast
  have r2: "currentLocation (fst (run DEFAULT_SETTINGS exampleGraph
        [HashChange ''#/app/g/page/A'', HashChange ''#/app/g/page/B'', Resolved 0, Resolved 0] (initial, [])))
      = Some \<lparr>loc_type = page, loc_uid = ''B''\<rparr>"
    using t qa qb ia' ib' by blast
  have r3: "currentLocation (fst (run DEFAULT_SETTINGS exampleGraph
        [HashChange ''#/app/g/page/gone'', HashChange ''#/app/g/page/B'', Resolved 1, Resolved 0] (initial, [])))
      = Some \<lparr>loc_type = page, loc_uid = ''B''\<rparr>"
    using t [THEN conjunct1] unfolding cm by simp
  have r4: "breadcrumbHistory (fst (run DEFAULT_SETTINGS exampleGraph
        [HashChange ''#/app/g/page/gone'', HashChange ''#/app/g/page/B'', Resolved 1, Resolved 0] (initial, [])))
      = [\<lparr>uid = ''B'', type = page, title = ''Page B''\<rparr>]"
    using t [THEN conjunct2, THEN conjunct1] unfolding cm using u by simp
  show ?thesis by (intro conjI qa qb ia ib r1 r2 cm r3 r4)
qed

section \<open>Properties of the matcher\<close>

lemma first_some_SomeD: "first_some xs = Some y \<Longrightarrow> Some y \<in> set xs"
  by (induction xs rule: first_some.induct) auto

lemma first_some_not_None: "Some y \<in> set xs \<Longrightarrow> first_some xs \<noteq> None"
  by (induction xs rule: first_some.induct) auto

lemma set_counts: "set (counts q m k) = {m..k}"
  by (cases q) auto

lemma take_le_takeWhile: "n \<le> length (takeWhile P s) \<Longrightarrow> take n s = take n (takeWhile P s)"
proof -
  assume n: "n \<le> length (takeWhile P s)"
  have "take n s = take n (takeWhile P s @ dropWhile P s)" by simp
  also have "\<dots> = take n (takeWhile P s)" using n by (simp del: takeWhile_dropWhile_id)
  finally show ?thesis .
qed

lemma take_takeWhile_all: "n \<le> length (takeWhile P s) \<Longrightarrow> \<forall>x\<in>set (take n s). P x"
proof
  fix x assume n: "n \<le> length (takeWhile P s)" and "x \<in> set (take n s)"
  then have "x \<in> set (take n (takeWhile P s))" by (simp add: take_le_takeWhile)
  then have "x \<in> set (takeWhile P s)" by (rule in_set_takeD)
  then show "P x" by (rule set_takeWhileD [THEN conjunct2])
qed

lemma Rep_SomeD:
  assumes "matchAt (Rep q m cls cap # r) s = Some (g, l)"
  obtains n g' l' where "m \<le> n" "n \<le> length (takeWhile cls s)" "matchAt r (drop n s) = Some (g', l')"
    "g = (if cap then Some (take n s) else g')" "l = n + l'"
proof -
  let ?f = "\<lambda>n. map_option (\<lambda>(g, l). (if cap then Some (take n s) else g, n + l)) (matchAt r (drop n s))"
  from assms have "first_some (map ?f (counts q m (length (takeWhile cls s)))) = Some (g, l)" by simp
  then have "Some (g, l) \<in> set (map ?f (counts q m (length (takeWhile cls s))))"
    by (rule first_some_SomeD)
  then have "Some (g, l) \<in> ?f ` set (counts q m (length (takeWhile cls s)))" by (simp only: set_map)
  then obtain n where nin: "n \<in> set (counts q m (length (takeWhile cls s)))" and f: "Some (g, l) = ?f n"
    by (rule imageE)
  from nin have n: "m \<le> n" "n \<le> length (takeWhile cls s)" by (simp_all add: set_counts)
  from f obtain g' l' where "matchAt r (drop n s) = Some (g', l')"
    "g = (if cap then Some (take n s) else g')" "l = n + l'"
    by (cases "matchAt r (drop n s)") auto
  with n that show thesis by blast
qed

lemma matchAt_sound: "matchAt re s = Some (g, l) \<Longrightarrow> \<exists>w t. s = w @ t \<and> length w = l \<and> accepts re w"
proof (induction re s arbitrary: g l rule: matchAt.induct)
  case (1 s)
  then show ?case by simp
next
  case (2 c r)
  then show ?case by simp
next
  case (3 c r x xs)
  from "3.prems" obtain g' l' where xc: "x = c" and m: "matchAt r xs = Some (g', l')" and l: "l = Suc l'"
    by (cases "matchAt r xs") (auto split: if_splits)
  from "3.IH" [OF xc m] obtain w t where "xs = w @ t" "length w = l'" "accepts r w" by auto
  then have "x # xs = (c # w) @ t \<and> length (c # w) = l \<and> accepts (Lit c # r) (c # w)"
    using xc l by simp
  then show ?case by blast
next
  case (4 q m cls cap r s)
  from "4.prems" obtain n g' l' where n: "m \<le> n" "n \<le> length (takeWhile cls s)"
    and m: "matchAt r (drop n s) = Some (g', l')" and l: "l = n + l'"
    by (rule Rep_SomeD)
  have ncounts: "n \<in> set (counts q m (length (takeWhile cls s)))" using n by (simp add: set_counts)
  from "4.IH" [OF ncounts m] obtain w t where w: "drop n s = w @ t" "length w = l'" "accepts r w" by auto
  have nlen: "n \<le> length s" using n(2) length_takeWhile_le [of cls s] by simp
  have "s = (take n s @ w) @ t" using w(1) by (metis append_assoc append_take_drop_id)
  moreover have "length (take n s @ w) = l" using nlen w(2) l by simp
  moreover have "\<exists>a b. take n s @ w = a @ b \<and> m \<le> length a \<and> (\<forall>x\<in>set a. cls x) \<and> accepts r b"
    using n(1) nlen w(3) take_takeWhile_all [OF n(2)]
    by (intro exI [of _ "take n s"] exI [of _ w]) simp
  then have "accepts (Rep q m cls cap # r) (take n s @ w)" by simp
  ultimately show ?case by blast
qed

lemma takeWhile_prefix_len: "\<forall>x\<in>set a. P x \<Longrightarrow> length a \<le> length (takeWhile P (a @ b))"
  by (simp add: takeWhile_append2)

lemma matchAt_complete: "accepts re w \<Longrightarrow> matchAt re (w @ t) \<noteq> None"
proof (induction re arbitrary: w)
  case Nil
  then show ?case by simp
next
  case (Cons it r)
  show ?case
  proof (cases it)
    case (Lit c)
    with Cons.prems obtain w' where "w = c # w'" "accepts r w'" by auto
    with Cons.IH [of w'] Lit show ?thesis by (cases "matchAt r (w' @ t)") auto
  next
    case (Rep q m cls cap)
    with Cons.prems obtain a b where ab: "w = a @ b" "m \<le> length a" "\<forall>x\<in>set a. cls x" "accepts r b"
      by auto
    let ?s = "w @ t"
    let ?f = "\<lambda>n. map_option (\<lambda>(g, l). (if cap then Some (take n ?s) else g, n + l)) (matchAt r (drop n ?s))"
    have "length a \<le> length (takeWhile cls ?s)"
      using takeWhile_prefix_len [OF ab(3), of "b @ t"] ab(1) by simp
    then have lenin: "length a \<in> set (counts q m (length (takeWhile cls ?s)))"
      using ab(2) by (simp add: set_counts)
    from Cons.IH [OF ab(4)] obtain y where "matchAt r (b @ t) = Some y" by auto
    then obtain z where z: "?f (length a) = Some z" using ab(1) by simp
    have "?f (length a) \<in> ?f ` set (counts q m (length (takeWhile cls ?s)))"
      using lenin by (rule imageI)
    then have "Some z \<in> ?f ` set (counts q m (length (takeWhile cls ?s)))"
      by (simp only: z)
    then have "Some z \<in> set (map ?f (counts q m (length (takeWhile cls ?s))))" by simp
    then have "first_some (map ?f (counts q m (length (takeWhile cls ?s)))) \<noteq> None"
      by (rule first_some_not_None)
    then show ?thesis using Rep by simp
  qed
qed

lemma search_SomeD:
  "search re h = Some (i, g, l) \<Longrightarrow>
     i \<le> length h \<and> matchAt re (drop i h) = Some (g, l) \<and> (\<forall>j<i. matchAt re (drop j h) = None)"
proof (induction h arbitrary: i)
  case Nil
  then show ?case by (cases "matchAt re []") auto
next
  case (Cons c cs)
  show ?case
  proof (cases "matchAt re (c # cs)")
    case None
    with Cons.prems obtain i' where i': "i = Suc i'" "search re cs = Some (i', g, l)"
      by (cases "search re cs") auto
    from Cons.IH [OF i'(2)] have ih: "i' \<le> length cs" "matchAt re (drop i' cs) = Some (g, l)"
      "\<forall>j<i'. matchAt re (drop j cs) = None" by auto
    have "matchAt re (drop j (c # cs)) = None" if "j < i" for j
      using that None ih(3) i'(1) by (cases j) auto
    then show ?thesis using ih i'(1) by simp
  next
    case (Some a)
    with Cons.prems show ?thesis by (cases a) auto
  qed
qed

lemma search_NoneD: "search re h = None \<Longrightarrow> j \<le> length h \<Longrightarrow> matchAt re (drop j h) = None"
proof (induction h arbitrary: j)
  case Nil
  then show ?case by (cases "matchAt re []") auto
next
  case (Cons c cs)
  from Cons.prems(1) have n: "matchAt re (c # cs) = None" "search re cs = None"
    by (auto split: option.splits)
  show ?case
  proof (cases j)
    case 0
    then show ?thesis using n by simp
  next
    case (Suc j')
    then show ?thesis using Cons.IH [OF n(2), of j'] Cons.prems(2) by simp
  qed
qed

lemma search_iff_contains: "search re h \<noteq> None \<longleftrightarrow> contains re h"
proof
  assume "search re h \<noteq> None"
  then obtain i g l where "search re h = Some (i, g, l)" by auto
  then have "matchAt re (drop i h) = Some (g, l)" by (simp add: search_SomeD)
  then obtain w t where "drop i h = w @ t" "accepts re w" using matchAt_sound by blast
  then have "h = take i h @ w @ t \<and> accepts re w" by (metis append_take_drop_id)
  then show "contains re h" unfolding contains_def by blast
next
  assume "contains re h"
  then obtain p w t where h: "h = p @ w @ t" and a: "accepts re w" unfolding contains_def by blast
  have m: "matchAt re (drop (length p) h) \<noteq> None" using matchAt_complete [OF a] h by simp
  have lp: "length p \<le> length h" using h by simp
  show "search re h \<noteq> None"
  proof
    assume "search re h = None"
    from search_NoneD [OF this lp] m show False by simp
  qed
qed

lemma blockPattern_split:
  "blockPattern = lits ''/page/'' @ (Rep Greedy 1 (notc CHR ''?'') False # (lits ''?'' @ tailPattern))"
  by (simp add: blockPattern_def tailPattern_def paramPattern_def)

lemma matchAt_lits_SomeD:
  "matchAt (lits u @ r) s = Some (g, l) \<Longrightarrow>
     take (length u) s = u \<and> (\<exists>l'. matchAt r (drop (length u) s) = Some (g, l'))"
proof (induction u arbitrary: s l)
  case Nil
  then show ?case by (simp add: lits_def)
next
  case (Cons c u)
  show ?case
  proof (cases s)
    case Nil
    with Cons.prems show ?thesis by (simp add: lits_def)
  next
    case (Cons x xs)
    with Cons.prems obtain l' where "x = c" "matchAt (lits u @ r) xs = Some (g, l')"
      by (cases "matchAt (lits u @ r) xs") (auto simp: lits_def split: if_splits)
    with Cons.IH [of xs l'] Cons show ?thesis by simp
  qed
qed

lemma matchAt_lits_hit:
  "matchAt (lits u @ r) (u @ t) = map_option (\<lambda>(g, l). (g, length u + l)) (matchAt r t)"
proof (induction u)
  case Nil
  then show ?case by (cases "matchAt r t") (auto simp: lits_def)
next
  case (Cons c u)
  then show ?case by (cases "matchAt r t") (auto simp: lits_def)
qed

lemma first_some_rev_upt:
  "first_some (map f (rev [m..<Suc k])) = Some y \<Longrightarrow>
     \<exists>n. m \<le> n \<and> n \<le> k \<and> f n = Some y \<and> (\<forall>n'. n < n' \<and> n' \<le> k \<longrightarrow> f n' = None)"
proof (induction k)
  case 0
  then show ?case by (cases m; cases "f 0") auto
next
  case (Suc k)
  show ?case
  proof (cases "m \<le> Suc k")
    case False
    with Suc.prems show ?thesis by simp
  next
    case True
    then have r: "rev [m..<Suc (Suc k)] = Suc k # rev [m..<Suc k]" by simp
    show ?thesis
    proof (cases "f (Suc k)")
      case None
      with Suc.prems r have "first_some (map f (rev [m..<Suc k])) = Some y" by simp
      from Suc.IH [OF this] obtain n where n: "m \<le> n" "n \<le> k" "f n = Some y"
        "\<forall>n'. n < n' \<and> n' \<le> k \<longrightarrow> f n' = None" by blast
      have "\<forall>n'. n < n' \<and> n' \<le> Suc k \<longrightarrow> f n' = None"
        using n(4) None by (auto simp: le_Suc_eq)
      with n show ?thesis by (intro exI [of _ n]) simp
    next
      case (Some z)
      with Suc.prems r have "z = y" by simp
      with Some True show ?thesis by (intro exI [of _ "Suc k"]) auto
    qed
  qed
qed

lemma Rep_Greedy_SomeD:
  assumes "matchAt (Rep Greedy m cls False # r) s = Some (g, l)"
  shows "\<exists>n l'. m \<le> n \<and> n \<le> length (takeWhile cls s) \<and> matchAt r (drop n s) = Some (g, l')
           \<and> (\<forall>n'. n < n' \<and> n' \<le> length (takeWhile cls s) \<longrightarrow> matchAt r (drop n' s) = None)"
proof -
  let ?f = "\<lambda>n. map_option (\<lambda>(g, l). (if False then Some (take n s) else g, n + l)) (matchAt r (drop n s))"
  from assms have "first_some (map ?f (rev [m..<Suc (length (takeWhile cls s))])) = Some (g, l)" by simp
  from first_some_rev_upt [OF this] obtain n where n: "m \<le> n" "n \<le> length (takeWhile cls s)"
    "?f n = Some (g, l)" "\<forall>n'. n < n' \<and> n' \<le> length (takeWhile cls s) \<longrightarrow> ?f n' = None" by blast
  from n(3) obtain l' where "matchAt r (drop n s) = Some (g, l')"
    by (cases "matchAt r (drop n s)") auto
  moreover from n(4) have "\<forall>n'. n < n' \<and> n' \<le> length (takeWhile cls s) \<longrightarrow> matchAt r (drop n' s) = None"
    by simp
  ultimately show ?thesis using n(1,2) by blast
qed

lemma matchAt_last_class:
  "matchAt [Rep Greedy (Suc 0) cls True] s =
     (if takeWhile cls s = [] then None else Some (Some (takeWhile cls s), length (takeWhile cls s)))"
proof (cases "takeWhile cls s = []")
  case True
  then show ?thesis by simp
next
  case False
  then obtain k where k: "length (takeWhile cls s) = Suc k" by (cases "takeWhile cls s") auto
  have "take (Suc k) s = takeWhile cls s"
    using take_le_takeWhile [of "Suc k" cls s] k by simp
  then show ?thesis using False k by simp
qed

lemma matchAt_param:
  "matchAt paramPattern s = Some (g, l) \<longleftrightarrow>
     take 6 s = ''block='' \<and> takeWhile idChar (drop 6 s) \<noteq> []
     \<and> g = Some (takeWhile idChar (drop 6 s)) \<and> l = 6 + length (takeWhile idChar (drop 6 s))"
proof
  assume a: "matchAt paramPattern s = Some (g, l)"
  have len: "length ''block='' = 6" by simp
  from matchAt_lits_SomeD [OF a [unfolded paramPattern_def], unfolded len]
  obtain l' where t: "take 6 s = ''block=''" and m: "matchAt [Rep Greedy 1 idChar True] (drop 6 s) = Some (g, l')"
    by blast
  from t have s: "s = ''block='' @ drop 6 s" by (metis append_take_drop_id)
  from m have ne: "takeWhile idChar (drop 6 s) \<noteq> []" and g: "g = Some (takeWhile idChar (drop 6 s))"
    by (auto simp: matchAt_last_class simp del: matchAt.simps split: if_splits)
  have "matchAt paramPattern (''block='' @ drop 6 s) = Some (g, 6 + length (takeWhile idChar (drop 6 s)))"
    unfolding paramPattern_def matchAt_lits_hit using ne g by (simp add: matchAt_last_class del: matchAt.simps)
  with a s have "l = 6 + length (takeWhile idChar (drop 6 s))" by simp
  with t ne g show "take 6 s = ''block='' \<and> takeWhile idChar (drop 6 s) \<noteq> []
     \<and> g = Some (takeWhile idChar (drop 6 s)) \<and> l = 6 + length (takeWhile idChar (drop 6 s))" by simp
next
  assume a: "take 6 s = ''block='' \<and> takeWhile idChar (drop 6 s) \<noteq> []
     \<and> g = Some (takeWhile idChar (drop 6 s)) \<and> l = 6 + length (takeWhile idChar (drop 6 s))"
  then have s: "s = ''block='' @ drop 6 s" by (metis append_take_drop_id)
  have "matchAt paramPattern (''block='' @ drop 6 s) = Some (g, l)"
    unfolding paramPattern_def matchAt_lits_hit using a by (simp add: matchAt_last_class del: matchAt.simps)
  with s show "matchAt paramPattern s = Some (g, l)" by simp
qed

lemma accepts_lits: "accepts (lits u @ r) w \<longleftrightarrow> (\<exists>w'. w = u @ w' \<and> accepts r w')"
  by (induction u arbitrary: w) (auto simp: lits_def)

lemma accepts_RepI:
  "m \<le> length a \<Longrightarrow> \<forall>x\<in>set a. cls x \<Longrightarrow> accepts r b \<Longrightarrow> accepts (Rep q m cls cap # r) (a @ b)"
  by auto

lemma accepts_RepD:
  "accepts (Rep q m cls cap # r) w \<Longrightarrow>
     \<exists>a b. w = a @ b \<and> m \<le> length a \<and> (\<forall>x\<in>set a. cls x) \<and> accepts r b"
  by simp

lemma accepts_litsD: "accepts (lits u @ r) w \<Longrightarrow> \<exists>w'. w = u @ w' \<and> accepts r w'"
  by (simp add: accepts_lits)

lemma accepts_litsI: "accepts r w \<Longrightarrow> accepts (lits u @ r) (u @ w)"
  by (simp add: accepts_lits)

lemma accepts_blockPattern:
  "accepts blockPattern w \<longleftrightarrow>
     (\<exists>pid qs bid. w = ''/page/'' @ pid @ ''?'' @ qs @ ''block='' @ bid
        \<and> pid \<noteq> [] \<and> CHR ''?'' \<notin> set pid \<and> (\<forall>c\<in>set qs. \<not> isLineTerminator c)
        \<and> bid \<noteq> [] \<and> (\<forall>c\<in>set bid. idChar c))"
proof
  assume "accepts blockPattern w"
  then have a0: "accepts (lits ''/page/'' @ (Rep Greedy 1 (notc CHR ''?'') False # (lits ''?'' @ (Rep Greedy 0 dot False
      # (lits ''block='' @ [Rep Greedy 1 idChar True]))))) w"
    by (simp add: blockPattern_def)
  from accepts_litsD [OF a0] obtain w1 where w1: "w = ''/page/'' @ w1"
    and a1: "accepts (Rep Greedy 1 (notc CHR ''?'') False # (lits ''?'' @ (Rep Greedy 0 dot False
                # (lits ''block='' @ [Rep Greedy 1 idChar True])))) w1"
    by blast
  from accepts_RepD [OF a1] obtain pid b1 where p: "w1 = pid @ b1" "1 \<le> length pid" "\<forall>x\<in>set pid. notc CHR ''?'' x"
    and a2: "accepts (lits ''?'' @ (Rep Greedy 0 dot False # (lits ''block='' @ [Rep Greedy 1 idChar True]))) b1"
    by blast
  from accepts_litsD [OF a2] obtain w2 where w2: "b1 = ''?'' @ w2"
    and a3: "accepts (Rep Greedy 0 dot False # (lits ''block='' @ [Rep Greedy 1 idChar True])) w2"
    by blast
  from accepts_RepD [OF a3] obtain qs b2 where qs: "w2 = qs @ b2" "\<forall>x\<in>set qs. dot x"
    and a4: "accepts (lits ''block='' @ [Rep Greedy 1 idChar True]) b2"
    by blast
  from accepts_litsD [OF a4] obtain bid where b: "b2 = ''block='' @ bid" and a5: "accepts [Rep Greedy 1 idChar True] bid"
    by blast
  from accepts_RepD [OF a5] have bb: "1 \<le> length bid" "\<forall>x\<in>set bid. idChar x" by auto
  have e: "w = ''/page/'' @ pid @ ''?'' @ qs @ ''block='' @ bid"
    by (simp only: w1 p(1) w2 qs(1) b)
  have c1: "pid \<noteq> []" using p(2) by auto
  have c2: "CHR ''?'' \<notin> set pid" using p(3) unfolding notc_def by blast
  have c3: "\<forall>c\<in>set qs. \<not> isLineTerminator c" using qs(2) unfolding dot_def by blast
  have c4: "bid \<noteq> []" using bb(1) by auto
  have "w = ''/page/'' @ pid @ ''?'' @ qs @ ''block='' @ bid
        \<and> pid \<noteq> [] \<and> CHR ''?'' \<notin> set pid \<and> (\<forall>c\<in>set qs. \<not> isLineTerminator c)
        \<and> bid \<noteq> [] \<and> (\<forall>c\<in>set bid. idChar c)"
    using e c1 c2 c3 c4 bb(2) by (intro conjI)
  then show "\<exists>pid qs bid. w = ''/page/'' @ pid @ ''?'' @ qs @ ''block='' @ bid
        \<and> pid \<noteq> [] \<and> CHR ''?'' \<notin> set pid \<and> (\<forall>c\<in>set qs. \<not> isLineTerminator c)
        \<and> bid \<noteq> [] \<and> (\<forall>c\<in>set bid. idChar c)" by blast
next
  assume "\<exists>pid qs bid. w = ''/page/'' @ pid @ ''?'' @ qs @ ''block='' @ bid
        \<and> pid \<noteq> [] \<and> CHR ''?'' \<notin> set pid \<and> (\<forall>c\<in>set qs. \<not> isLineTerminator c)
        \<and> bid \<noteq> [] \<and> (\<forall>c\<in>set bid. idChar c)"
  then obtain pid qs bid where w: "w = ''/page/'' @ pid @ ''?'' @ qs @ ''block='' @ bid"
    and c: "pid \<noteq> []" "CHR ''?'' \<notin> set pid" "\<forall>c\<in>set qs. \<not> isLineTerminator c"
      "bid \<noteq> []" "\<forall>c\<in>set bid. idChar c" by blast
  have "accepts [Rep Greedy 1 idChar True] (bid @ [])"
    using c(4,5) by (intro accepts_RepI) (simp_all add: Suc_le_eq)
  then have "accepts (lits ''block='' @ [Rep Greedy 1 idChar True]) (''block='' @ bid)"
    using accepts_litsI [of "[Rep Greedy 1 idChar True]" bid "''block=''"] by simp
  then have "accepts (Rep Greedy 0 dot False # (lits ''block='' @ [Rep Greedy 1 idChar True])) (qs @ ''block='' @ bid)"
    using c(3) by (intro accepts_RepI) (simp_all add: dot_def)
  then have "accepts (lits ''?'' @ (Rep Greedy 0 dot False # (lits ''block='' @ [Rep Greedy 1 idChar True])))
      (''?'' @ qs @ ''block='' @ bid)"
    by (rule accepts_litsI)
  then have "accepts (Rep Greedy 1 (notc CHR ''?'') False # (lits ''?'' @ (Rep Greedy 0 dot False
      # (lits ''block='' @ [Rep Greedy 1 idChar True])))) (pid @ ''?'' @ qs @ ''block='' @ bid)"
    using c(1,2) by (intro accepts_RepI) (auto simp: notc_def Suc_le_eq)
  then have "accepts (lits ''/page/'' @ (Rep Greedy 1 (notc CHR ''?'') False # (lits ''?'' @ (Rep Greedy 0 dot False
      # (lits ''block='' @ [Rep Greedy 1 idChar True]))))) (''/page/'' @ pid @ ''?'' @ qs @ ''block='' @ bid)"
    by (rule accepts_litsI)
  then show "accepts blockPattern w" using w by (simp add: blockPattern_def)
qed

lemma accepts_pagePattern:
  "accepts pagePattern w \<longleftrightarrow> (\<exists>pid. w = ''/page/'' @ pid \<and> pid \<noteq> [] \<and> (\<forall>c\<in>set pid. idChar c))"
proof
  assume "accepts pagePattern w"
  then have a0: "accepts (lits ''/page/'' @ [Rep Greedy 1 idChar True]) w" by (simp add: pagePattern_def)
  from accepts_litsD [OF a0] obtain pid where p: "w = ''/page/'' @ pid"
    and a1: "accepts [Rep Greedy 1 idChar True] pid" by blast
  from accepts_RepD [OF a1] have "1 \<le> length pid" "\<forall>x\<in>set pid. idChar x" by auto
  then have "pid \<noteq> [] \<and> (\<forall>c\<in>set pid. idChar c)" by auto
  with p show "\<exists>pid. w = ''/page/'' @ pid \<and> pid \<noteq> [] \<and> (\<forall>c\<in>set pid. idChar c)" by blast
next
  assume "\<exists>pid. w = ''/page/'' @ pid \<and> pid \<noteq> [] \<and> (\<forall>c\<in>set pid. idChar c)"
  then obtain pid where w: "w = ''/page/'' @ pid" and c: "pid \<noteq> []" "\<forall>c\<in>set pid. idChar c" by blast
  have "accepts [Rep Greedy 1 idChar True] (pid @ [])"
    using c by (intro accepts_RepI) (simp_all add: Suc_le_eq)
  then have "accepts (lits ''/page/'' @ [Rep Greedy 1 idChar True]) (''/page/'' @ pid)"
    using accepts_litsI [of "[Rep Greedy 1 idChar True]" pid "''/page/''"] by simp
  then show "accepts pagePattern w" using w by (simp add: pagePattern_def)
qed

section \<open>Properties of the location resolver\<close>

lemma capture_class:
  "matchAt re s = Some (Some w, l) \<Longrightarrow>
     \<exists>q m cls. Rep q m cls True \<in> set re \<and> m \<le> length w \<and> (\<forall>x\<in>set w. cls x)"
proof (induction re s arbitrary: l rule: matchAt.induct)
  case (1 s)
  then show ?case by simp
next
  case (2 c r)
  then show ?case by simp
next
  case (3 c r x xs)
  from "3.prems" obtain l' where xc: "x = c" and m: "matchAt r xs = Some (Some w, l')"
    by (cases "matchAt r xs") (auto split: if_splits)
  from "3.IH" [OF xc m] show ?case by auto
next
  case (4 q m cls cap r s)
  from "4.prems" obtain n g' l' where n: "m \<le> n" "n \<le> length (takeWhile cls s)"
    and m: "matchAt r (drop n s) = Some (g', l')" and g: "Some w = (if cap then Some (take n s) else g')"
    by (rule Rep_SomeD)
  have ncounts: "n \<in> set (counts q m (length (takeWhile cls s)))" using n by (simp add: set_counts)
  show ?case
  proof (cases cap)
    case True
    with g have w: "w = take n s" by simp
    have "n \<le> length s" using n(2) length_takeWhile_le [of cls s] by simp
    then have "m \<le> length w" using w n(1) by simp
    moreover have "\<forall>x\<in>set w. cls x" unfolding w using n(2) by (rule take_takeWhile_all)
    ultimately show ?thesis using True by auto
  next
    case False
    with g m have "matchAt r (drop n s) = Some (Some w, l')" by simp
    from "4.IH" [OF ncounts this] show ?thesis by auto
  qed
qed

lemma capture_present:
  "matchAt re s = Some (g, l) \<Longrightarrow> \<exists>q m cls. Rep q m cls True \<in> set re \<Longrightarrow> g \<noteq> None"
proof (induction re s arbitrary: g l rule: matchAt.induct)
  case (1 s)
  then show ?case by simp
next
  case (2 c r)
  then show ?case by simp
next
  case (3 c r x xs)
  from "3.prems"(1) obtain l' where xc: "x = c" and m: "matchAt r xs = Some (g, l')"
    by (cases "matchAt r xs") (auto split: if_splits)
  from "3.prems"(2) have "\<exists>q m cls. Rep q m cls True \<in> set r" by simp
  from "3.IH" [OF xc m this] show ?case .
next
  case (4 q m cls cap r s)
  from "4.prems"(1) obtain n g' l' where n: "m \<le> n" "n \<le> length (takeWhile cls s)"
    and m: "matchAt r (drop n s) = Some (g', l')" and g: "g = (if cap then Some (take n s) else g')"
    by (rule Rep_SomeD)
  have ncounts: "n \<in> set (counts q m (length (takeWhile cls s)))" using n by (simp add: set_counts)
  show ?case
  proof (cases cap)
    case True
    with g show ?thesis by simp
  next
    case False
    with "4.prems"(2) have "\<exists>q m cls. Rep q m cls True \<in> set r" by auto
    from "4.IH" [OF ncounts m this] g False show ?thesis by simp
  qed
qed

lemma block_groups: "Rep q m cls True \<in> set blockPattern \<Longrightarrow> m = 1 \<and> cls = idChar"
  by (auto simp: blockPattern_def lits_def)

lemma page_groups: "Rep q m cls True \<in> set pagePattern \<Longrightarrow> m = 1 \<and> cls = idChar"
  by (auto simp: pagePattern_def lits_def)

lemma has_group: "\<exists>q m cls. Rep q m cls True \<in> set blockPattern"
  "\<exists>q m cls. Rep q m cls True \<in> set pagePattern"
  by (auto simp: blockPattern_def pagePattern_def lits_def)

lemma group1_search:
  assumes "re = blockPattern \<or> re = pagePattern"
  shows "search re h = None \<Longrightarrow> group1 (search re h) = None"
    and "search re h = Some (i, g, l) \<Longrightarrow>
          \<exists>w. g = Some w \<and> group1 (search re h) = Some w \<and> w \<noteq> [] \<and> (\<forall>c\<in>set w. idChar c)"
proof -
  show "search re h = None \<Longrightarrow> group1 (search re h) = None" by simp
  assume s: "search re h = Some (i, g, l)"
  then have m: "matchAt re (drop i h) = Some (g, l)" by (simp add: search_SomeD)
  have "\<exists>q m cls. Rep q m cls True \<in> set re" using assms has_group by auto
  from capture_present [OF m this] obtain w where g: "g = Some w" by auto
  from capture_class [OF m [unfolded g]] obtain q k cls where
    r: "Rep q k cls True \<in> set re" "k \<le> length w" "\<forall>x\<in>set w. cls x" by blast
  from r(1) assms have "k = 1 \<and> cls = idChar" using block_groups page_groups by blast
  with r have "w \<noteq> []" "\<forall>c\<in>set w. idChar c" by auto
  then show "\<exists>w. g = Some w \<and> group1 (search re h) = Some w \<and> w \<noteq> [] \<and> (\<forall>c\<in>set w. idChar c)"
    using g s by simp
qed

lemma drop_past: "length a \<le> d \<Longrightarrow> drop d (a @ x) = drop (d - length a) x"
  by simp

lemma drop_length_append: "drop (length a) (a @ b) = b"
  by simp

lemma takeWhile_stop: "\<forall>c\<in>set a. P c \<Longrightarrow> b = [] \<or> \<not> P (hd b) \<Longrightarrow> takeWhile P (a @ b) = a"
  by (cases b) (simp_all add: takeWhile_append2)

lemma param_at:
  assumes "bid \<noteq> []" "\<forall>c\<in>set bid. idChar c" "rest = [] \<or> \<not> idChar (hd rest)"
  shows "matchAt paramPattern (''block='' @ bid @ rest) = Some (Some bid, 6 + length bid)"
proof -
  have "takeWhile idChar (bid @ rest) = bid" using assms(2,3) by (rule takeWhile_stop)
  then show ?thesis using assms(1) by (simp add: matchAt_param)
qed

lemma param_SomeD:
  assumes "matchAt paramPattern t = Some (g, l)"
  shows "\<exists>c v. t = ''block='' @ c # v \<and> idChar c"
proof -
  from assms have t: "take 6 t = ''block=''" and n: "takeWhile idChar (drop 6 t) \<noteq> []"
    by (simp_all add: matchAt_param)
  from n obtain c v where d: "drop 6 t = c # v" and c: "idChar c"
    by (cases "drop 6 t") (auto split: if_splits)
  have "t = take 6 t @ drop 6 t" by simp
  then have "t = ''block='' @ c # v" unfolding t d .
  with c show ?thesis by blast
qed

lemma no_later:
  assumes nl: "\<not> (\<exists>u c v. bid @ rest = u @ ''block='' @ c # v \<and> idChar c)" and d: "0 < d"
  shows "matchAt paramPattern (drop d (''block='' @ bid @ rest)) = None"
proof (rule ccontr)
  assume "matchAt paramPattern (drop d (''block='' @ bid @ rest)) \<noteq> None"
  then obtain g l where "matchAt paramPattern (drop d (''block='' @ bid @ rest)) = Some (g, l)" by auto
  from param_SomeD [OF this] obtain c v where e: "drop d (''block='' @ bid @ rest) = ''block='' @ c # v"
    and c: "idChar c" by blast
  show False
  proof (cases "6 \<le> d")
    case True
    then have le: "length ''block='' \<le> d" by simp
    have "drop d (''block='' @ bid @ rest) = drop (d - length ''block='') (bid @ rest)"
      by (rule drop_past [OF le])
    with e have "bid @ rest = take (d - length ''block='') (bid @ rest) @ ''block='' @ c # v"
      by (metis append_take_drop_id)
    with nl c show False by blast
  next
    case False
    with d have "d = 1 \<or> d = 2 \<or> d = 3 \<or> d = 4 \<or> d = 5" by arith
    with e show False by (elim disjE) simp_all
  qed
qed

lemma tail_capture:
  assumes dots: "\<forall>c\<in>set h. \<not> isLineTerminator c"
    and p: "p \<le> length h" "matchAt paramPattern (drop p h) = Some (Some bid, lp)"
    and later: "\<forall>j. p < j \<longrightarrow> matchAt paramPattern (drop j h) = None"
    and m: "matchAt tailPattern (drop j h) = Some (g, l)"
  shows "g = Some bid"
proof -
  have "\<forall>c\<in>set (drop j h). dot c" using dots by (auto simp: dot_def dest: in_set_dropD)
  then have k: "length (takeWhile dot (drop j h)) = length h - j" by (simp add: takeWhile_eq_all_conv [THEN iffD2])
  from Rep_Greedy_SomeD [OF m [unfolded tailPattern_def]] obtain n l' where
    n: "n \<le> length h - j" "matchAt paramPattern (drop n (drop j h)) = Some (g, l')"
      "\<forall>n'. n < n' \<and> n' \<le> length h - j \<longrightarrow> matchAt paramPattern (drop n' (drop j h)) = None"
    unfolding k by blast
  have at: "matchAt paramPattern (drop (n + j) h) = Some (g, l')" using n(2) by simp
  have "\<not> p < n + j" using later at by auto
  moreover have "\<not> n + j < p"
  proof
    assume lt: "n + j < p"
    then have "n < p - j \<and> p - j \<le> length h - j" using p(1) by arith
    with n(3) have "matchAt paramPattern (drop (p - j) (drop j h)) = None" by blast
    moreover have "p - j + j = p" using lt by arith
    ultimately show False using p(2) by simp
  qed
  ultimately have "n + j = p" by arith
  with at p(2) show ?thesis by simp
qed

lemma block_capture:
  assumes dots: "\<forall>c\<in>set h. \<not> isLineTerminator c"
    and p: "p \<le> length h" "matchAt paramPattern (drop p h) = Some (Some bid, lp)"
    and later: "\<forall>j. p < j \<longrightarrow> matchAt paramPattern (drop j h) = None"
    and m: "matchAt blockPattern (drop i h) = Some (g, l)"
  shows "g = Some bid"
proof -
  from matchAt_lits_SomeD [OF m [unfolded blockPattern_split]] obtain l1 where
    m1: "matchAt (Rep Greedy 1 (notc CHR ''?'') False # (lits ''?'' @ tailPattern))
           (drop (length ''/page/'') (drop i h)) = Some (g, l1)" by blast
  from m1 obtain n g' l2 where
    m2: "matchAt (lits ''?'' @ tailPattern) (drop n (drop (length ''/page/'') (drop i h))) = Some (g', l2)"
    and g: "g = (if False then Some (take n (drop (length ''/page/'') (drop i h))) else g')"
    by (rule Rep_SomeD)
  from matchAt_lits_SomeD [OF m2] obtain l3 where
    m3: "matchAt tailPattern (drop (length ''?'') (drop n (drop (length ''/page/'') (drop i h)))) = Some (g', l3)"
    by blast
  then have "matchAt tailPattern (drop (length ''?'' + n + length ''/page/'' + i) h) = Some (g', l3)"
    by (simp add: add.assoc)
  from tail_capture [OF dots p later this] g show ?thesis by simp
qed

lemma block_resolves:
  assumes h: "hash = pre @ ''/page/'' @ pid @ ''?'' @ qs @ ''block='' @ bid @ rest"
    and pid: "pid \<noteq> []" "CHR ''?'' \<notin> set pid"
    and dots: "\<forall>c\<in>set hash. \<not> isLineTerminator c"
    and bid: "bid \<noteq> []" "\<forall>c\<in>set bid. idChar c" "rest = [] \<or> \<not> idChar (hd rest)"
    and nl: "\<not> (\<exists>u c v. bid @ rest = u @ ''block='' @ c # v \<and> idChar c)"
  shows "getLocationFromHash hash = Some \<lparr>loc_type = block, loc_uid = bid\<rparr>"
proof -
  let ?a = "pre @ ''/page/'' @ pid @ ''?'' @ qs"
  let ?P = "''block='' @ bid @ rest"
  have ha: "hash = ?a @ ?P" using h by simp
  have p1: "length ?a \<le> length hash" unfolding ha by simp
  have p2: "matchAt paramPattern (drop (length ?a) hash) = Some (Some bid, 6 + length bid)"
    unfolding ha drop_length_append by (rule param_at [OF bid])
  have later: "\<forall>j. length ?a < j \<longrightarrow> matchAt paramPattern (drop j hash) = None"
  proof (intro allI impI)
    fix j assume j: "length ?a < j"
    have eq: "drop j hash = drop (j - length ?a) ?P"
      unfolding ha by (rule drop_past [OF less_imp_le [OF j]])
    have pos: "0 < j - length ?a" using j by (rule zero_less_diff [THEN iffD2])
    show "matchAt paramPattern (drop j hash) = None"
      by (simp only: eq no_later [OF nl pos])
  qed
  have "\<forall>c\<in>set qs. \<not> isLineTerminator c" using dots h by simp
  then have "accepts blockPattern (''/page/'' @ pid @ ''?'' @ qs @ ''block='' @ bid)"
    using pid bid(1,2) unfolding accepts_blockPattern by blast
  then have "contains blockPattern hash"
    unfolding contains_def using h
    by (intro exI [of _ pre] exI [of _ "''/page/'' @ pid @ ''?'' @ qs @ ''block='' @ bid"] exI [of _ rest]) simp
  then obtain i g l where s: "search blockPattern hash = Some (i, g, l)"
    using search_iff_contains [of blockPattern hash] by auto
  then have "matchAt blockPattern (drop i hash) = Some (g, l)" by (simp add: search_SomeD)
  from block_capture [OF dots p1 p2 later this] have "g = Some bid" .
  with s bid(1) have "group1 (search blockPattern hash) = Some bid" by simp
  then show ?thesis by (simp add: getLocationFromHash_def)
qed

lemma page_at:
  assumes "pid \<noteq> []" "\<forall>c\<in>set pid. idChar c" "rest = [] \<or> \<not> idChar (hd rest)"
  shows "matchAt pagePattern (''/page/'' @ pid @ rest) = Some (Some pid, length ''/page/'' + length pid)"
proof -
  have t: "takeWhile idChar (pid @ rest) = pid" using assms(2,3) by (rule takeWhile_stop)
  have "matchAt [Rep Greedy (Suc 0) idChar True] (pid @ rest) = Some (Some pid, length pid)"
    unfolding matchAt_last_class t using assms(1) by simp
  then have "matchAt (lits ''/page/'' @ [Rep Greedy (Suc 0) idChar True]) (''/page/'' @ pid @ rest)
      = Some (Some pid, length ''/page/'' + length pid)"
    unfolding matchAt_lits_hit by simp
  then show ?thesis by (simp add: pagePattern_def)
qed

lemma page_SomeD:
  assumes "matchAt pagePattern t = Some (g, l)"
  shows "\<exists>c v. t = ''/page/'' @ c # v \<and> idChar c"
proof -
  from matchAt_sound [OF assms] obtain w r where t: "t = w @ r" and a: "accepts pagePattern w" by blast
  from a obtain pid where w: "w = ''/page/'' @ pid" and p: "pid \<noteq> []" "\<forall>c\<in>set pid. idChar c"
    unfolding accepts_pagePattern by blast
  from p obtain c v where pv: "pid = c # v" and c: "idChar c" by (cases pid) auto
  have "t = ''/page/'' @ c # (v @ r)" unfolding t w pv by simp
  with c show ?thesis by blast
qed

lemma search_at:
  assumes m: "matchAt re (drop n h) = Some (g, l)" and n: "n \<le> length h"
    and before: "\<forall>j<n. matchAt re (drop j h) = None"
  shows "search re h = Some (n, g, l)"
proof -
  have "search re h \<noteq> None"
  proof
    assume "search re h = None"
    from search_NoneD [OF this n] m show False by simp
  qed
  then obtain x where "search re h = Some x" by auto
  then obtain i g' l' where s: "search re h = Some (i, g', l')" by (cases x) auto
  from search_SomeD [OF s] have i: "matchAt re (drop i h) = Some (g', l')"
    "\<forall>j<i. matchAt re (drop j h) = None" by auto
  have "\<not> i < n" using before i(1) by auto
  moreover have "\<not> n < i" using i(2) m by auto
  ultimately have "i = n" by arith
  with s i(1) m show ?thesis by simp
qed

lemma page_resolves:
  assumes h: "hash = pre @ ''/page/'' @ pid @ rest"
    and pid: "pid \<noteq> []" "\<forall>c\<in>set pid. idChar c" "rest = [] \<or> \<not> idChar (hd rest)"
    and nb: "\<not> contains blockPattern hash"
    and first: "\<not> (\<exists>u c v. hash = u @ ''/page/'' @ c # v \<and> idChar c \<and> length u < length pre)"
  shows "getLocationFromHash hash = Some \<lparr>loc_type = page, loc_uid = pid\<rparr>"
proof -
  have m: "matchAt pagePattern (drop (length pre) hash) = Some (Some pid, length ''/page/'' + length pid)"
    unfolding h drop_length_append by (rule page_at [OF pid])
  have n: "length pre \<le> length hash" unfolding h by simp
  have before: "\<forall>j<length pre. matchAt pagePattern (drop j hash) = None"
  proof (intro allI impI, rule ccontr)
    fix j assume j: "j < length pre" and "matchAt pagePattern (drop j hash) \<noteq> None"
    then obtain g l where "matchAt pagePattern (drop j hash) = Some (g, l)" by auto
    from page_SomeD [OF this] obtain c v where d: "drop j hash = ''/page/'' @ c # v" and c: "idChar c"
      by blast
    have "hash = take j hash @ ''/page/'' @ c # v" using d by (metis append_take_drop_id)
    moreover have "length (take j hash) < length pre" using j n by simp
    ultimately show False using first c by blast
  qed
  from search_at [OF m n before] have "group1 (search pagePattern hash) = Some pid"
    using pid(1) by auto
  moreover have "search blockPattern hash = None"
    using nb search_iff_contains [of blockPattern hash] by blast
  ultimately show ?thesis by (simp add: getLocationFromHash_def)
qed

lemma no_page_segment:
  assumes "\<not> (\<exists>u v. hash = u @ ''/page/'' @ v)"
  shows "\<not> contains blockPattern hash" and "\<not> contains pagePattern hash"
proof -
  show "\<not> contains blockPattern hash"
  proof
    assume "contains blockPattern hash"
    then obtain p w t where h: "hash = p @ w @ t" and a: "accepts blockPattern w"
      unfolding contains_def by blast
    from a obtain x where "w = ''/page/'' @ x" unfolding accepts_blockPattern by blast
    with h have "hash = p @ ''/page/'' @ (x @ t)" by simp
    with assms show False by blast
  qed
  show "\<not> contains pagePattern hash"
  proof
    assume "contains pagePattern hash"
    then obtain p w t where h: "hash = p @ w @ t" and a: "accepts pagePattern w"
      unfolding contains_def by blast
    from a obtain x where "w = ''/page/'' @ x" unfolding accepts_pagePattern by blast
    with h have "hash = p @ ''/page/'' @ (x @ t)" by simp
    with assms show False by blast
  qed
qed

lemma no_question_no_block: "CHR ''?'' \<notin> set hash \<Longrightarrow> \<not> contains blockPattern hash"
proof
  assume q: "CHR ''?'' \<notin> set hash" and "contains blockPattern hash"
  then obtain p w t where h: "hash = p @ w @ t" and a: "accepts blockPattern w"
    unfolding contains_def by blast
  from a obtain pid x where "w = ''/page/'' @ pid @ ''?'' @ x" unfolding accepts_blockPattern by blast
  with h have "CHR ''?'' \<in> set hash" by simp
  with q show False by simp
qed

lemma substring_search: "(\<exists>u v. h = u @ x @ v) \<longleftrightarrow> search (lits x) h \<noteq> None"
proof -
  have "accepts (lits x @ []) w \<longleftrightarrow> w = x" for w unfolding accepts_lits by auto
  then have "contains (lits x) h \<longleftrightarrow> (\<exists>u v. h = u @ x @ v)" unfolding contains_def by auto
  then show ?thesis using search_iff_contains [of "lits x" h] by simp
qed

lemma no_early_page:
  assumes "\<forall>j\<in>set [0..<n]. matchAt pagePattern (drop j hash) = None"
  shows "\<not> (\<exists>u c v. hash = u @ ''/page/'' @ c # v \<and> idChar c \<and> length u < n)"
proof
  assume "\<exists>u c v. hash = u @ ''/page/'' @ c # v \<and> idChar c \<and> length u < n"
  then obtain u c v where h: "hash = u @ ''/page/'' @ c # v" and c: "idChar c" and u: "length u < n"
    by blast
  have "accepts pagePattern (''/page/'' @ [c])" unfolding accepts_pagePattern using c by simp
  from matchAt_complete [OF this, of v] have "matchAt pagePattern (drop (length u) hash) \<noteq> None"
    unfolding h drop_length_append by simp
  with assms u show False by simp
qed

lemma resolver_order:
  "contains blockPattern h \<Longrightarrow> \<exists>b. getLocationFromHash h = Some \<lparr>loc_type = block, loc_uid = b\<rparr>"
  "\<not> contains blockPattern h \<Longrightarrow> contains pagePattern h \<Longrightarrow>
     \<exists>p. getLocationFromHash h = Some \<lparr>loc_type = page, loc_uid = p\<rparr>"
  "\<not> contains blockPattern h \<Longrightarrow> \<not> contains pagePattern h \<Longrightarrow> getLocationFromHash h = None"
proof -
  show "\<exists>b. getLocationFromHash h = Some \<lparr>loc_type = block, loc_uid = b\<rparr>" if "contains blockPattern h"
  proof -
    from that obtain i g l where "search blockPattern h = Some (i, g, l)"
      using search_iff_contains [of blockPattern h] by auto
    from group1_search(2) [OF _ this] obtain w where "group1 (search blockPattern h) = Some w" by auto
    then show ?thesis by (simp add: getLocationFromHash_def)
  qed
  show "\<exists>p. getLocationFromHash h = Some \<lparr>loc_type = page, loc_uid = p\<rparr>"
    if nb: "\<not> contains blockPattern h" and pg: "contains pagePattern h"
  proof -
    from nb have "search blockPattern h = None"
      using search_iff_contains [of blockPattern h] by blast
    then have b: "group1 (search blockPattern h) = None" by simp
    from pg obtain i g l where "search pagePattern h = Some (i, g, l)"
      using search_iff_contains [of pagePattern h] by auto
    from group1_search(2) [OF _ this] obtain w where "group1 (search pagePattern h) = Some w" by auto
    with b show ?thesis by (simp add: getLocationFromHash_def)
  qed
  show "getLocationFromHash h = None" if "\<not> contains blockPattern h" "\<not> contains pagePattern h"
  proof -
    from that have "search blockPattern h = None" "search pagePattern h = None"
      using search_iff_contains [of blockPattern h] search_iff_contains [of pagePattern h] by blast+
    then have "group1 (search blockPattern h) = None" "group1 (search pagePattern h) = None"
      by simp_all
    then show ?thesis by (simp add: getLocationFromHash_def)
  qed
qed

lemma resolver_none_iff:
  "getLocationFromHash h = None \<longleftrightarrow> \<not> contains blockPattern h \<and> \<not> contains pagePattern h"
proof (cases "contains blockPattern h")
  case True
  with resolver_order(1) [OF True] show ?thesis by auto
next
  case False
  show ?thesis
  proof (cases "contains pagePattern h")
    case True
    with resolver_order(2) [OF False True] False show ?thesis by auto
  next
    case nopage: False
    with resolver_order(3) [OF False nopage] False show ?thesis by simp
  qed
qed

text \<open>
  C7 asks that a signal of the form \<^verbatim>\<open>.../page/abc123\<close> resolves to the page
  \<open>abc123\<close> and one of the form \<^verbatim>\<open>.../search\<close> to no location. The patterns are not
  anchored and the leftmost match is taken, so the text in front can supply the match: in a
  graph named \<open>page\<close> the hash \<^verbatim>\<open>#/app/page/page/abc123\<close> resolves to the page
  \<open>page\<close>, and \<^verbatim>\<open>#/app/page/search\<close> to the page \<open>search\<close>.
\<close>

theorem C7_prefix_supplies_match:
  "getLocationFromHash (''#/app/page'' @ ''/page/abc123'') = Some \<lparr>loc_type = page, loc_uid = ''page''\<rparr>
   \<and> getLocationFromHash (''#/app/page'' @ ''/page/abc123'') \<noteq> Some \<lparr>loc_type = page, loc_uid = ''abc123''\<rparr>
   \<and> getLocationFromHash (''#/app/page'' @ ''/search'') = Some \<lparr>loc_type = page, loc_uid = ''search''\<rparr>
   \<and> getLocationFromHash (''#/app/page'' @ ''/search'') \<noteq> None"
  by code_simp

text \<open>
  C7, amended. The location resolver is a function of the hash alone. When the hash contains a
  match of the block pattern the result is a block location; when it contains none, but a
  match of the page pattern, the result is a page location; when it contains neither, there
  is no location. The uid of a location is never empty and consists of characters of
  \<^verbatim>\<open>[a-zA-Z0-9_-]\<close> only. Each pattern is matched at its leftmost occurrence:
  \<^item> a hash \<^verbatim>\<open>pre/page/abc123?mid block=xyz789\<close> without line terminators resolves to the
    block \<open>xyz789\<close>, for every \<open>pre\<close> and \<open>mid\<close>;
  \<^item> a hash \<^verbatim>\<open>pre/page/pid rest\<close>, where \<open>pid\<close> is a non-empty run of id characters that
    ends at \<open>rest\<close>, resolves to the page \<open>pid\<close> when the hash contains no match of the
    block pattern and no \<^verbatim>\<open>/page/\<close> followed by an id character starts inside \<open>pre\<close>; so
    does \<^verbatim>\<open>pre/page/abc123\<close> when \<open>pre\<close> has no \<^verbatim>\<open>?\<close> and no such earlier start;
  \<^item> a hash resolves to no location exactly when it contains a match of neither pattern, so
    when it does not contain \<^verbatim>\<open>/page/\<close>.
  The three hashes of the examples, with three full stops in front, resolve to the block
  \<open>xyz789\<close>, to the page \<open>abc123\<close> and to no location.
\<close>

theorem C7_location_resolver_leftmost:
  "(contains blockPattern h1 \<longrightarrow> (\<exists>b. getLocationFromHash h1 = Some \<lparr>loc_type = block, loc_uid = b\<rparr>))
   \<and> (\<not> contains blockPattern h2 \<and> contains pagePattern h2 \<longrightarrow>
        (\<exists>p. getLocationFromHash h2 = Some \<lparr>loc_type = page, loc_uid = p\<rparr>))
   \<and> (\<not> contains blockPattern h3 \<and> \<not> contains pagePattern h3 \<longrightarrow> getLocationFromHash h3 = None)
   \<and> (getLocationFromHash h4 = Some location \<longrightarrow>
        loc_uid location \<noteq> [] \<and> (\<forall>c\<in>set (loc_uid location). idChar c))
   \<and> ((\<forall>c\<in>set (pre5 @ mid5). \<not> isLineTerminator c) \<longrightarrow>
        getLocationFromHash (pre5 @ ''/page/abc123?'' @ mid5 @ ''block=xyz789'')
          = Some \<lparr>loc_type = block, loc_uid = ''xyz789''\<rparr>)
   \<and> (h6 = pre6 @ ''/page/'' @ pid6 @ rest6
        \<and> pid6 \<noteq> [] \<and> (\<forall>c\<in>set pid6. idChar c) \<and> (rest6 = [] \<or> \<not> idChar (hd rest6))
        \<and> \<not> contains blockPattern h6
        \<and> \<not> (\<exists>u c v. h6 = u @ ''/page/'' @ c # v \<and> idChar c \<and> length u < length pre6) \<longrightarrow>
        getLocationFromHash h6 = Some \<lparr>loc_type = page, loc_uid = pid6\<rparr>)
   \<and> (CHR ''?'' \<notin> set pre7
        \<and> \<not> (\<exists>u c v. pre7 @ ''/page/abc123'' = u @ ''/page/'' @ c # v \<and> idChar c \<and> length u < length pre7) \<longrightarrow>
        getLocationFromHash (pre7 @ ''/page/abc123'') = Some \<lparr>loc_type = page, loc_uid = ''abc123''\<rparr>)
   \<and> (\<not> (\<exists>u v. h8 = u @ ''/page/'' @ v) \<longrightarrow> getLocationFromHash h8 = None)
   \<and> (getLocationFromHash h9 = None \<longleftrightarrow> \<not> contains blockPattern h9 \<and> \<not> contains pagePattern h9)
   \<and> getLocationFromHash ''.../page/abc123?...block=xyz789'' = Some \<lparr>loc_type = block, loc_uid = ''xyz789''\<rparr>
   \<and> getLocationFromHash ''.../page/abc123'' = Some \<lparr>loc_type = page, loc_uid = ''abc123''\<rparr>
   \<and> getLocationFromHash ''.../search'' = None"
proof (intro conjI impI)
  assume "contains blockPattern h1"
  then obtain i g l where "search blockPattern h1 = Some (i, g, l)"
    using search_iff_contains [of blockPattern h1] by auto
  from group1_search(2) [OF _ this] obtain w where "group1 (search blockPattern h1) = Some w" by auto
  then show "\<exists>b. getLocationFromHash h1 = Some \<lparr>loc_type = block, loc_uid = b\<rparr>"
    by (simp add: getLocationFromHash_def)
next
  assume a: "\<not> contains blockPattern h2 \<and> contains pagePattern h2"
  then have "search blockPattern h2 = None"
    using search_iff_contains [of blockPattern h2] by blast
  then have b: "group1 (search blockPattern h2) = None" by simp
  from a obtain i g l where "search pagePattern h2 = Some (i, g, l)"
    using search_iff_contains [of pagePattern h2] by auto
  from group1_search(2) [OF _ this] obtain w where "group1 (search pagePattern h2) = Some w" by auto
  with b show "\<exists>p. getLocationFromHash h2 = Some \<lparr>loc_type = page, loc_uid = p\<rparr>"
    by (simp add: getLocationFromHash_def)
next
  assume a: "\<not> contains blockPattern h3 \<and> \<not> contains pagePattern h3"
  then have "search blockPattern h3 = None" "search pagePattern h3 = None"
    using search_iff_contains [of blockPattern h3] search_iff_contains [of pagePattern h3] by blast+
  then have "group1 (search blockPattern h3) = None" "group1 (search pagePattern h3) = None"
    by simp_all
  then show "getLocationFromHash h3 = None" by (simp add: getLocationFromHash_def)
next
  assume a: "getLocationFromHash h4 = Some location"
  have "\<exists>re. (re = blockPattern \<or> re = pagePattern) \<and> group1 (search re h4) = Some (loc_uid location)"
    using a by (auto simp: getLocationFromHash_def split: option.splits)
  then obtain re where re: "re = blockPattern \<or> re = pagePattern"
    and g: "group1 (search re h4) = Some (loc_uid location)" by blast
  from g obtain i g' l where s: "search re h4 = Some (i, g', l)" by (cases "search re h4") auto
  from group1_search(2) [OF re s] g
  show "loc_uid location \<noteq> []" and "\<forall>c\<in>set (loc_uid location). idChar c" by auto
next
  assume d: "\<forall>c\<in>set (pre5 @ mid5). \<not> isLineTerminator c"
  show "getLocationFromHash (pre5 @ ''/page/abc123?'' @ mid5 @ ''block=xyz789'')
          = Some \<lparr>loc_type = block, loc_uid = ''xyz789''\<rparr>"
  proof (rule block_resolves [where pre = pre5 and pid = "''abc123''" and qs = mid5 and rest = "[]"])
    show "pre5 @ ''/page/abc123?'' @ mid5 @ ''block=xyz789''
        = pre5 @ ''/page/'' @ ''abc123'' @ ''?'' @ mid5 @ ''block='' @ ''xyz789'' @ []" by simp
    show "\<forall>c\<in>set (pre5 @ ''/page/abc123?'' @ mid5 @ ''block=xyz789''). \<not> isLineTerminator c"
      using d by (auto simp: isLineTerminator_def)
    show "\<not> (\<exists>u c v. ''xyz789'' @ [] = u @ ''block='' @ c # v \<and> idChar c)"
      by (auto dest: arg_cong [where f = length])
  qed (simp_all add: idChar_def)
next
  assume a: "h6 = pre6 @ ''/page/'' @ pid6 @ rest6
        \<and> pid6 \<noteq> [] \<and> (\<forall>c\<in>set pid6. idChar c) \<and> (rest6 = [] \<or> \<not> idChar (hd rest6))
        \<and> \<not> contains blockPattern h6
        \<and> \<not> (\<exists>u c v. h6 = u @ ''/page/'' @ c # v \<and> idChar c \<and> length u < length pre6)"
  then show "getLocationFromHash h6 = Some \<lparr>loc_type = page, loc_uid = pid6\<rparr>"
    by (intro page_resolves [where pre = pre6 and rest = rest6]) blast+
next
  assume a: "CHR ''?'' \<notin> set pre7
        \<and> \<not> (\<exists>u c v. pre7 @ ''/page/abc123'' = u @ ''/page/'' @ c # v \<and> idChar c \<and> length u < length pre7)"
  show "getLocationFromHash (pre7 @ ''/page/abc123'') = Some \<lparr>loc_type = page, loc_uid = ''abc123''\<rparr>"
  proof (rule page_resolves [where pre = pre7 and rest = "[]"])
    show "pre7 @ ''/page/abc123'' = pre7 @ ''/page/'' @ ''abc123'' @ []" by simp
    show "\<not> contains blockPattern (pre7 @ ''/page/abc123'')"
      using a by (intro no_question_no_block) simp
    show "\<not> (\<exists>u c v. pre7 @ ''/page/abc123'' = u @ ''/page/'' @ c # v \<and> idChar c \<and> length u < length pre7)"
      using a by blast
  qed (simp_all add: idChar_def)
next
  assume a: "\<not> (\<exists>u v. h8 = u @ ''/page/'' @ v)"
  from no_page_segment [OF a] have "search blockPattern h8 = None" "search pagePattern h8 = None"
    using search_iff_contains [of blockPattern h8] search_iff_contains [of pagePattern h8] by blast+
  then have "group1 (search blockPattern h8) = None" "group1 (search pagePattern h8) = None"
    by simp_all
  then show "getLocationFromHash h8 = None" by (simp add: getLocationFromHash_def)
next
  show "getLocationFromHash h9 = None \<longleftrightarrow> \<not> contains blockPattern h9 \<and> \<not> contains pagePattern h9"
    by (rule resolver_none_iff)
  show "getLocationFromHash ''.../page/abc123?...block=xyz789'' = Some \<lparr>loc_type = block, loc_uid = ''xyz789''\<rparr>"
    by code_simp
  show "getLocationFromHash ''.../page/abc123'' = Some \<lparr>loc_type = page, loc_uid = ''abc123''\<rparr>"
    by code_simp
  show "getLocationFromHash ''.../search'' = None"
    by code_simp
qed

theorem C7_location_resolver_leftmost_witness:
  "contains blockPattern ''#/app/g/page/abc123?x=1&block=xyz789''
   \<and> (\<exists>b. getLocationFromHash ''#/app/g/page/abc123?x=1&block=xyz789'' = Some \<lparr>loc_type = block, loc_uid = b\<rparr>)
   \<and> \<not> contains blockPattern ''#/app/g/page/abc123'' \<and> contains pagePattern ''#/app/g/page/abc123''
   \<and> (\<exists>p. getLocationFromHash ''#/app/g/page/abc123'' = Some \<lparr>loc_type = page, loc_uid = p\<rparr>)
   \<and> \<not> contains blockPattern ''#/app/g/search'' \<and> \<not> contains pagePattern ''#/app/g/search''
   \<and> getLocationFromHash ''#/app/g/search'' = None
   \<and> getLocationFromHash ''#/app/g/page/abc123?x=1&block=xyz789'' = Some \<lparr>loc_type = block, loc_uid = ''xyz789''\<rparr>
   \<and> loc_uid \<lparr>loc_type = block, loc_uid = ''xyz789''\<rparr> \<noteq> []
   \<and> set (loc_uid \<lparr>loc_type = block, loc_uid = ''xyz789''\<rparr>) \<subseteq> Collect idChar
   \<and> getLocationFromHash (''#/app/page'' @ ''/page/abc123?'' @ ''x=1&'' @ ''block=xyz789'')
       = Some \<lparr>loc_type = block, loc_uid = ''xyz789''\<rparr>
   \<and> ''#/app/g/page/abc123/extra'' = ''#/app/g'' @ ''/page/'' @ ''abc123'' @ ''/extra''
   \<and> \<not> contains blockPattern ''#/app/g/page/abc123/extra''
   \<and> getLocationFromHash ''#/app/g/page/abc123/extra'' = Some \<lparr>loc_type = page, loc_uid = ''abc123''\<rparr>
   \<and> CHR ''?'' \<notin> set ''#/app/g''
   \<and> getLocationFromHash (''#/app/g'' @ ''/page/abc123'') = Some \<lparr>loc_type = page, loc_uid = ''abc123''\<rparr>
   \<and> getLocationFromHash ''#/app/g/settings'' = None"
proof -
  note t = C7_location_resolver_leftmost [where ?h1.0 = "''#/app/g/page/abc123?x=1&block=xyz789''"
      and ?h2.0 = "''#/app/g/page/abc123''" and ?h3.0 = "''#/app/g/search''"
      and ?h4.0 = "''#/app/g/page/abc123?x=1&block=xyz789''"
      and location = "\<lparr>loc_type = block, loc_uid = ''xyz789''\<rparr>"
      and ?pre5.0 = "''#/app/page''" and ?mid5.0 = "''x=1&''"
      and ?h6.0 = "''#/app/g/page/abc123/extra''" and ?pre6.0 = "''#/app/g''" and ?pid6.0 = "''abc123''"
      and ?rest6.0 = "''/extra''" and ?pre7.0 = "''#/app/g''" and ?h8.0 = "''#/app/g/settings''"]
  have s1: "search blockPattern ''#/app/g/page/abc123?x=1&block=xyz789'' \<noteq> None" by code_simp
  have s2: "search blockPattern ''#/app/g/page/abc123'' = None" by code_simp
  have s3: "search pagePattern ''#/app/g/page/abc123'' \<noteq> None" by code_simp
  have s4: "search blockPattern ''#/app/g/search'' = None" by code_simp
  have s5: "search pagePattern ''#/app/g/search'' = None" by code_simp
  have s6: "search blockPattern ''#/app/g/page/abc123/extra'' = None" by code_simp
  have s8: "search (lits ''/page/'') ''#/app/g/settings'' = None" by code_simp
  have c1: "contains blockPattern ''#/app/g/page/abc123?x=1&block=xyz789''"
    using s1 by (simp only: search_iff_contains)
  have c2: "\<not> contains blockPattern ''#/app/g/page/abc123''"
    using s2 search_iff_contains [of blockPattern "''#/app/g/page/abc123''"] by simp
  have c3: "contains pagePattern ''#/app/g/page/abc123''"
    using s3 by (simp only: search_iff_contains)
  have c4: "\<not> contains blockPattern ''#/app/g/search''"
    using s4 search_iff_contains [of blockPattern "''#/app/g/search''"] by simp
  have c5: "\<not> contains pagePattern ''#/app/g/search''"
    using s5 search_iff_contains [of pagePattern "''#/app/g/search''"] by simp
  have c6: "\<not> contains blockPattern ''#/app/g/page/abc123/extra''"
    using s6 search_iff_contains [of blockPattern "''#/app/g/page/abc123/extra''"] by simp
  have l: "getLocationFromHash ''#/app/g/page/abc123?x=1&block=xyz789''
             = Some \<lparr>loc_type = block, loc_uid = ''xyz789''\<rparr>" by code_simp
  have r1: "\<exists>b. getLocationFromHash ''#/app/g/page/abc123?x=1&block=xyz789'' = Some \<lparr>loc_type = block, loc_uid = b\<rparr>"
    using t c1 by blast
  have r2: "\<exists>p. getLocationFromHash ''#/app/g/page/abc123'' = Some \<lparr>loc_type = page, loc_uid = p\<rparr>"
    using t c2 c3 by blast
  have r3: "getLocationFromHash ''#/app/g/search'' = None"
    using t c4 c5 by blast
  have r4: "loc_uid \<lparr>loc_type = block, loc_uid = ''xyz789''\<rparr> \<noteq> []
      \<and> (\<forall>c\<in>set (loc_uid \<lparr>loc_type = block, loc_uid = ''xyz789''\<rparr>). idChar c)"
    using t l by blast
  have d5: "\<forall>c\<in>set (''#/app/page'' @ ''x=1&''). \<not> isLineTerminator c"
    by (simp add: isLineTerminator_def)
  have r5: "getLocationFromHash (''#/app/page'' @ ''/page/abc123?'' @ ''x=1&'' @ ''block=xyz789'')
       = Some \<lparr>loc_type = block, loc_uid = ''xyz789''\<rparr>"
    using t d5 by blast
  have e6: "''#/app/g/page/abc123/extra'' = ''#/app/g'' @ ''/page/'' @ ''abc123'' @ ''/extra''" by simp
  have i6: "''abc123'' \<noteq> []" "\<forall>c\<in>set ''abc123''. idChar c" "''/extra'' = [] \<or> \<not> idChar (hd ''/extra'')"
    by (simp_all add: idChar_def)
  have m6: "\<forall>j\<in>set [0..<length ''#/app/g'']. matchAt pagePattern (drop j ''#/app/g/page/abc123/extra'') = None"
    by code_simp
  have f6: "\<not> (\<exists>u c v. ''#/app/g/page/abc123/extra'' = u @ ''/page/'' @ c # v \<and> idChar c
              \<and> length u < length ''#/app/g'')"
    using m6 by (rule no_early_page)
  have r6: "getLocationFromHash ''#/app/g/page/abc123/extra'' = Some \<lparr>loc_type = page, loc_uid = ''abc123''\<rparr>"
    using t e6 i6 c6 f6 by blast
  have q7: "CHR ''?'' \<notin> set ''#/app/g''" by simp
  have m7: "\<forall>j\<in>set [0..<length ''#/app/g'']. matchAt pagePattern (drop j (''#/app/g'' @ ''/page/abc123'')) = None"
    by code_simp
  have f7: "\<not> (\<exists>u c v. ''#/app/g'' @ ''/page/abc123'' = u @ ''/page/'' @ c # v \<and> idChar c
              \<and> length u < length ''#/app/g'')"
    using m7 by (rule no_early_page)
  have r7: "getLocationFromHash (''#/app/g'' @ ''/page/abc123'') = Some \<lparr>loc_type = page, loc_uid = ''abc123''\<rparr>"
    using t q7 f7 by blast
  have n8: "\<not> (\<exists>u v. ''#/app/g/settings'' = u @ ''/page/'' @ v)"
    using s8 substring_search [of "''#/app/g/settings''" "''/page/''"] by simp
  have r8: "getLocationFromHash ''#/app/g/settings'' = None"
    using t n8 by blast
  have r4': "loc_uid \<lparr>loc_type = block, loc_uid = ''xyz789''\<rparr> \<noteq> []"
    "set (loc_uid \<lparr>loc_type = block, loc_uid = ''xyz789''\<rparr>) \<subseteq> Collect idChar"
    using r4 by auto
  show ?thesis
    by (intro conjI c1 r1 c2 c3 r2 c4 c5 r3 l r4' r5 e6 c6 r6 q7 r7 r8)
qed

text \<open>
  C10. Let the hash be free of line terminators (a \<^verbatim>\<open>location.hash\<close> always is), and let
  it contain \<^verbatim>\<open>/page/\<close>, a non-empty page part without \<^verbatim>\<open>?\<close>, a \<^verbatim>\<open>?\<close>, and somewhere
  behind it \<^verbatim>\<open>block=\<close> with the value \<open>bid\<close> (non-empty, of characters of
  \<^verbatim>\<open>[a-zA-Z0-9_-]\<close>, ending where the next character is not one of them) such that no
  further \<^verbatim>\<open>block=\<close> with a value follows. Then the resolver yields the block \<open>bid\<close>,
  however many \<^verbatim>\<open>block=\<close> parameters come before it: the last one wins. A hash ending
  in \<^verbatim>\<open>/page/p?block=a&block=b\<close> resolves to the block \<open>b\<close>.
\<close>

theorem C10_last_block_parameter:
  "(hash = pre @ ''/page/'' @ pid @ ''?'' @ qs @ ''block='' @ bid @ rest
      \<and> pid \<noteq> [] \<and> CHR ''?'' \<notin> set pid
      \<and> (\<forall>c\<in>set hash. \<not> isLineTerminator c)
      \<and> bid \<noteq> [] \<and> (\<forall>c\<in>set bid. idChar c) \<and> (rest = [] \<or> \<not> idChar (hd rest))
      \<and> \<not> (\<exists>u c v. bid @ rest = u @ ''block='' @ c # v \<and> idChar c)
    \<longrightarrow> getLocationFromHash hash = Some \<lparr>loc_type = block, loc_uid = bid\<rparr>)
   \<and> ((\<forall>c\<in>set pre'. \<not> isLineTerminator c)
    \<longrightarrow> getLocationFromHash (pre' @ ''/page/p?block=a&block=b'') = Some \<lparr>loc_type = block, loc_uid = ''b''\<rparr>)"
proof -
  note main = block_resolves
  have ex: "getLocationFromHash (pre' @ ''/page/p?block=a&block=b'') = Some \<lparr>loc_type = block, loc_uid = ''b''\<rparr>"
    if d: "\<forall>c\<in>set pre'. \<not> isLineTerminator c"
  proof (rule main [where pre = pre' and pid = "''p''" and qs = "''block=a&''" and rest = "[]"])
    show "pre' @ ''/page/p?block=a&block=b'' = pre' @ ''/page/'' @ ''p'' @ ''?'' @ ''block=a&'' @ ''block='' @ ''b'' @ []"
      by simp
    show "\<forall>c\<in>set (pre' @ ''/page/p?block=a&block=b''). \<not> isLineTerminator c"
      using d by (auto simp: isLineTerminator_def)
    show "\<not> (\<exists>u c v. ''b'' @ [] = u @ ''block='' @ c # v \<and> idChar c)"
      by (auto dest: arg_cong [where f = length])
  qed (simp_all add: idChar_def)
  show ?thesis using main ex by blast
qed

theorem C10_last_block_parameter_witness:
  "''#/app/g/page/p?block=a&block=b&x=1'' = ''#/app/g'' @ ''/page/'' @ ''p'' @ ''?'' @ ''block=a&'' @ ''block='' @ ''b'' @ ''&x=1''
   \<and> CHR ''?'' \<notin> set ''p'' \<and> \<not> idChar (hd ''&x=1'')
   \<and> getLocationFromHash ''#/app/g/page/p?block=a&block=b&x=1'' = Some \<lparr>loc_type = block, loc_uid = ''b''\<rparr>
   \<and> getLocationFromHash (''#/app/g'' @ ''/page/p?block=a&block=b'') = Some \<lparr>loc_type = block, loc_uid = ''b''\<rparr>"
proof -
  have e: "''#/app/g/page/p?block=a&block=b&x=1''
      = ''#/app/g'' @ ''/page/'' @ ''p'' @ ''?'' @ ''block=a&'' @ ''block='' @ ''b'' @ ''&x=1''"
    by simp
  have p: "''p'' \<noteq> []" "CHR ''?'' \<notin> set ''p''" by simp_all
  have d: "\<forall>c\<in>set ''#/app/g/page/p?block=a&block=b&x=1''. \<not> isLineTerminator c"
    by (simp add: isLineTerminator_def)
  have d': "\<forall>c\<in>set ''#/app/g''. \<not> isLineTerminator c"
    by (simp add: isLineTerminator_def)
  have n: "\<not> (\<exists>u c v. ''b'' @ ''&x=1'' = u @ ''block='' @ c # v \<and> idChar c)"
  proof (intro notI, elim exE conjE)
    fix u c v assume "''b'' @ ''&x=1'' = u @ ''block='' @ c # v"
    then have "length (''b'' @ ''&x=1'') = length (u @ ''block='' @ c # v)" by (rule arg_cong)
    then show False by simp
  qed
  have i: "''b'' \<noteq> []" "\<forall>c\<in>set ''b''. idChar c" "''&x=1'' = [] \<or> \<not> idChar (hd ''&x=1'')"
    by (simp_all add: idChar_def)
  note t = C10_last_block_parameter [where hash = "''#/app/g/page/p?block=a&block=b&x=1''"
      and pre = "''#/app/g''" and pid = "''p''" and qs = "''block=a&''" and bid = "''b''"
      and rest = "''&x=1''" and pre' = "''#/app/g''"]
  have r1: "getLocationFromHash ''#/app/g/page/p?block=a&block=b&x=1'' = Some \<lparr>loc_type = block, loc_uid = ''b''\<rparr>"
    by (rule t [THEN conjunct1, THEN mp]) (intro conjI e p d i n)
  have r2: "getLocationFromHash (''#/app/g'' @ ''/page/p?block=a&block=b'') = Some \<lparr>loc_type = block, loc_uid = ''b''\<rparr>"
    by (rule t [THEN conjunct2, THEN mp]) (rule d')
  have i': "\<not> idChar (hd ''&x=1'')" by (simp add: idChar_def)
  show ?thesis by (intro conjI e p(2) i' r1 r2)
qed

end
